theory Spec2Isabelle
  imports Main "HOL-Library.Char_ord" "HOL-Library.List_Lexorder" "HOL-Library.Multiset"
begin

section \<open>Strings and paths as the Go program uses them\<close>

text \<open>
  A Go string is a sequence of bytes; it is modelled as \<^typ>\<open>string\<close>, and the order on
  strings is the bytewise lexicographic order of Go's \<^verbatim>\<open><\<close>. The path functions are those
  of \<^verbatim>\<open>path/filepath\<close> on a target whose separator is the forward slash.
\<close>

definition hasPrefix :: "string \<Rightarrow> string \<Rightarrow> bool" where
  "hasPrefix s p = (take (length p) s = p)"

definition hasSuffix :: "string \<Rightarrow> string \<Rightarrow> bool" where
  "hasSuffix s p = (length p \<le> length s \<and> drop (length s - length p) s = p)"

text \<open>\<^verbatim>\<open>strings.TrimLeft(s, "/\\")\<close>: every leading slash and backslash is removed.\<close>

definition trimLeftSeps :: "string \<Rightarrow> string" where
  "trimLeftSeps s = dropWhile (\<lambda>c. c = CHR ''/'' \<or> c = CHR 0x5C) s"

text \<open>
  \<^verbatim>\<open>strings.LastIndex(s, ".")\<close>: the index of the last dot, or -1. The scan goes through the
  string once, remembering the last position at which a dot was seen.
\<close>

fun lastIndexFrom :: "int \<Rightarrow> int \<Rightarrow> string \<Rightarrow> int" where
  "lastIndexFrom i found [] = found"
| "lastIndexFrom i found (c # cs) =
     lastIndexFrom (i + 1) (if c = CHR ''.'' then i else found) cs"

definition lastIndexDot :: "string \<Rightarrow> int" where
  "lastIndexDot s = lastIndexFrom 0 (-1) s"

text \<open>The verb \<^verbatim>\<open>%d\<close> of \<^verbatim>\<open>fmt\<close>: decimal digits, with a minus sign below zero.\<close>

definition digitChar :: "nat \<Rightarrow> char" where
  "digitChar d = ''0123456789'' ! d"

fun decimal :: "nat \<Rightarrow> string" where
  "decimal n = (if n < 10 then [digitChar n] else decimal (n div 10) @ [digitChar (n mod 10)])"

declare decimal.simps [simp del]

definition fmtD :: "int \<Rightarrow> string" where
  "fmtD i = (if i < 0 then CHR ''-'' # decimal (nat (- i)) else decimal (nat i))"

text \<open>
  \<^verbatim>\<open>filepath.Ext\<close>: the suffix that starts at the last dot of the last path element, empty
  when that element has no dot. The source scans backwards and stops at a separator.
\<close>

fun extRev :: "string \<Rightarrow> string \<Rightarrow> string" where
  "extRev [] acc = []"
| "extRev (c # cs) acc =
     (if c = CHR ''/'' then []
      else if c = CHR ''.'' then c # acc
      else extRev cs (c # acc))"

definition filepathExt :: "string \<Rightarrow> string" where
  "filepathExt p = extRev (rev p) []"

definition trimSuffix :: "string \<Rightarrow> string \<Rightarrow> string" where
  "trimSuffix s suf = (if hasSuffix s suf then take (length s - length suf) s else s)"

text \<open>
  \<^verbatim>\<open>filepath.Clean\<close>, on path elements: empty elements and \<^verbatim>\<open>.\<close> are dropped, \<^verbatim>\<open>..\<close> removes
  the element before it when there is one to remove, is kept at the front of a relative
  path and is dropped at the root. The stack \<open>out\<close> holds the kept elements, last first.
\<close>

fun splitSlash :: "string \<Rightarrow> string \<Rightarrow> string list" where
  "splitSlash [] cur = [rev cur]"
| "splitSlash (c # cs) cur =
     (if c = CHR ''/'' then rev cur # splitSlash cs [] else splitSlash cs (c # cur))"

fun cleanElems :: "bool \<Rightarrow> string list \<Rightarrow> string list \<Rightarrow> string list" where
  "cleanElems rooted [] out = rev out"
| "cleanElems rooted (e # es) out =
     (if e = [] \<or> e = ''.'' then cleanElems rooted es out
      else if e = ''..'' then
        (case out of
           [] \<Rightarrow> cleanElems rooted es (if rooted then [] else [''..''])
         | t # ts \<Rightarrow>
             if t \<noteq> ''..'' then cleanElems rooted es ts
             else cleanElems rooted es (if rooted then out else ''..'' # out))
      else cleanElems rooted es (e # out))"

fun joinSlash :: "string list \<Rightarrow> string" where
  "joinSlash [] = []"
| "joinSlash [e] = e"
| "joinSlash (e # es) = e @ CHR ''/'' # joinSlash es"

definition filepathClean :: "string \<Rightarrow> string" where
  "filepathClean p =
     (if p = [] then ''.''
      else let rooted = (hd p = CHR ''/'');
               body = joinSlash (cleanElems rooted (splitSlash p []) []);
               res = (if rooted then CHR ''/'' # body else body)
           in if res = [] then ''.'' else res)"

text \<open>\<^verbatim>\<open>filepath.Join(a, b)\<close>: leading empty elements are ignored, the rest is cleaned.\<close>

definition filepathJoin :: "string \<Rightarrow> string \<Rightarrow> string" where
  "filepathJoin a b =
     (if a \<noteq> [] then filepathClean (a @ CHR ''/'' # b)
      else if b \<noteq> [] then filepathClean b
      else [])"

text \<open>\<^verbatim>\<open>filepath.ToSlash\<close> returns its argument where the separator is the slash.\<close>

definition toSlash :: "string \<Rightarrow> string" where
  "toSlash p = p"

section \<open>Skip rule and target names\<close>

definition shouldSkipPath :: "string \<Rightarrow> bool" where
  "shouldSkipPath p =
     (if p = [] then True
      else if hasPrefix p ''__MACOSX/'' then True
      else if hasSuffix p ''.DS_Store'' then True
      else False)"

text \<open>
  The candidate \<open>base\<close> of \<^verbatim>\<open>mapTargetName\<close>: the inner path without leading separators,
  below the archive's name without its extension when the job prefixes by archive.
\<close>

definition targetBase :: "bool \<Rightarrow> string \<Rightarrow> string \<Rightarrow> string" where
  "targetBase prefixByZip zipName inner =
     (let inner' = trimLeftSeps inner
      in if prefixByZip
         then toSlash (filepathJoin (trimSuffix zipName (filepathExt zipName)) inner')
         else toSlash inner')"

text \<open>The name given to a candidate that the table already holds with counter \<open>c\<close>.\<close>

definition dupName :: "string \<Rightarrow> int \<Rightarrow> string" where
  "dupName base c =
     (let dot = lastIndexDot base;
          root = (if dot \<ge> 0 then take (nat dot) base else base);
          ext = (if dot \<ge> 0 then drop (nat dot) base else [])
      in root @ ''__dup'' @ fmtD c @ ext)"

text \<open>
  \<^verbatim>\<open>mapTargetName\<close> reads and updates the table \<^verbatim>\<open>dedup\<close>; the model returns the target
  together with the updated table.
\<close>

definition mapTargetName ::
  "bool \<Rightarrow> string \<Rightarrow> string \<Rightarrow> (string \<rightharpoonup> int) \<Rightarrow> string \<times> (string \<rightharpoonup> int)" where
  "mapTargetName prefixByZip zipName inner dedup =
     (let base = targetBase prefixByZip zipName inner
      in case dedup base of
           Some c \<Rightarrow> (dupName base c, dedup(base \<mapsto> c + 1))
         | None \<Rightarrow> (base, dedup(base \<mapsto> 1)))"

text \<open>
  The targets of one job: the entries that reach \<^verbatim>\<open>mapTargetName\<close>, in processing order,
  each as the pair of its archive name and inner path, share one table that starts empty.
\<close>

fun mapTargetsFrom ::
  "bool \<Rightarrow> (string \<rightharpoonup> int) \<Rightarrow> (string \<times> string) list \<Rightarrow> string list" where
  "mapTargetsFrom p dedup [] = []"
| "mapTargetsFrom p dedup ((z, i) # xs) =
     (let (t, dedup') = mapTargetName p z i dedup in t # mapTargetsFrom p dedup' xs)"

definition mapTargets :: "bool \<Rightarrow> (string \<times> string) list \<Rightarrow> string list" where
  "mapTargets p xs = mapTargetsFrom p Map.empty xs"

section \<open>Machine integers and the float64 products of the space estimate\<close>

text \<open>
  A \<^verbatim>\<open>uint64\<close> is a natural number below \<open>2^64\<close>; sums and products wrap. The conversion
  \<^verbatim>\<open>int(x)\<close> reads the same 64 bits as a signed number (a 64-bit target).
\<close>

definition u64 :: "nat \<Rightarrow> nat" where
  "u64 n = n mod 2 ^ 64"

definition asInt :: "nat \<Rightarrow> int" where
  "asInt n = (if n < 2 ^ 63 then int n else int n - 2 ^ 64)"

text \<open>
  The estimate multiplies in \<^verbatim>\<open>float64\<close>. A finite float64 that is not negative is the pair
  \<open>(n, k)\<close> of value \<open>n / 2^k\<close> whose numerator has at most 53 significant bits. A result is
  rounded to the nearest such number, ties to the even one (\<open>rne53\<close>); the products of this
  program stay far inside the exponent range, so no other case of IEEE 754 arises.
\<close>

fun bitLen :: "nat \<Rightarrow> nat" where
  "bitLen n = (if n = 0 then 0 else Suc (bitLen (n div 2)))"

declare bitLen.simps [simp del]

definition rne53 :: "nat \<Rightarrow> nat" where
  "rne53 n =
     (if bitLen n \<le> 53 then n
      else let s = bitLen n - 53;
               q = n div 2 ^ s;
               r = n mod 2 ^ s;
               h = 2 ^ (s - 1)
           in (if r > h \<or> (r = h \<and> odd q) then q + 1 else q) * 2 ^ s)"

type_synonym f64 = "nat \<times> nat"

definition float64OfUint64 :: "nat \<Rightarrow> f64" where
  "float64OfUint64 n = (rne53 n, 0)"

definition f64Mul :: "f64 \<Rightarrow> f64 \<Rightarrow> f64" where
  "f64Mul a b = (rne53 (fst a * fst b), snd a + snd b)"

text \<open>
  \<^verbatim>\<open>uint64(f)\<close> truncates; Go leaves the result to the implementation when the value does
  not fit, and \<open>impl\<close> stands for that result.
\<close>

definition uint64OfFloat64 :: "nat \<Rightarrow> f64 \<Rightarrow> nat" where
  "uint64OfFloat64 impl a =
     (let v = fst a div 2 ^ snd a in if v < 2 ^ 64 then v else impl)"

text \<open>The float64 nearest to 1.05, 1.25 and 1.10: \<^verbatim>\<open>0x3FF0CCCCCCCCCCCD\<close>, \<^verbatim>\<open>0x3FF4000000000000\<close>, \<^verbatim>\<open>0x3FF199999999999A\<close>.\<close>

definition c105 :: f64 where
  "c105 = (4728779608739021, 52)"

definition c125 :: f64 where
  "c125 = (5, 2)"

definition c110 :: f64 where
  "c110 = (4953959590107546, 52)"

text \<open>The bytes \<^verbatim>\<open>need\<close> of \<^verbatim>\<open>mergeZIP\<close>, from the two totals of the catalog.\<close>

definition diskNeed :: "nat \<Rightarrow> bool \<Rightarrow> nat \<Rightarrow> nat \<Rightarrow> nat" where
  "diskNeed impl store overallTotal overallCompressed =
     (if store then uint64OfFloat64 impl (f64Mul (float64OfUint64 overallTotal) c105)
      else let candidate = uint64OfFloat64 impl (f64Mul (float64OfUint64 overallCompressed) c125);
               candidate' = (if candidate > overallTotal then overallTotal else candidate)
           in uint64OfFloat64 impl (f64Mul (float64OfUint64 candidate') c110))"

text \<open>
  \<^verbatim>\<open>freeBytes\<close>: zero unless \<^verbatim>\<open>Statfs\<close> ran and succeeded, then available blocks times block
  size. \<open>None\<close> stands for a Windows target and for a failed call.
\<close>

definition freeBytes :: "(nat \<times> nat) option \<Rightarrow> nat" where
  "freeBytes st = (case st of None \<Rightarrow> 0 | Some (bavail, bsize) \<Rightarrow> u64 (bavail * bsize))"

definition spaceRejected :: "nat \<Rightarrow> nat \<Rightarrow> bool" where
  "spaceRejected free need = (free > 0 \<and> free < need)"

section \<open>The data of a job\<close>

record options =
  inputDir :: string
  outDir :: string
  outBase :: string
  filterGlob :: string
  store :: bool
  deflateLevel :: int
  chunkMB :: int
  prefixByZip :: bool
  splitSize :: string
  splitMode :: string
  rmAfterSplit :: bool

text \<open>
  One turn of the copy loop of an entry: \<^verbatim>\<open>rc.Read\<close> returned \<open>cn\<close> bytes and the error
  \<open>cerr\<close>. After the last listed turn the reader is at its end.
\<close>

datatype rerr = NoErr | EOF | ReadFail

datatype chunk = Chunk (cn: nat) (cerr: rerr)

text \<open>
  An entry of a source archive, with what the archive reader reports for it and with the
  outcome of the calls made for it: \<^verbatim>\<open>zw.CreateHeader\<close>, \<^verbatim>\<open>f.Open\<close>, the reads of the copy
  loop, and the writer \<^verbatim>\<open>w\<close> that \<^verbatim>\<open>zw.CreateHeader\<close> returns for the entry: \<open>fwfail\<close> is the
  number, counted from 0, of the first call of \<^verbatim>\<open>w.Write\<close> that returns an error (\<open>None\<close>
  when none does).
\<close>

record zfile =
  fname :: string
  fisDir :: bool
  fusize :: nat
  fcsize :: nat
  fhdrFails :: bool
  fopenFails :: bool
  fchunks :: "chunk list"
  fwfail :: "nat option"

text \<open>
  What the job finds outside: whether the output directory can be made, the names of the
  input directory that pass the filter of \<^verbatim>\<open>listZipFiles\<close> in directory order (\<open>None\<close> when
  listing fails), the archives by name (\<open>None\<close> when \<^verbatim>\<open>zip.OpenReader\<close> fails), the answer
  of \<^verbatim>\<open>Statfs\<close>, and whether creating and closing the output succeed. The input directory
  does not change while the job runs: each of the three passes finds the same archives.
\<close>

record env =
  mkdirFails :: bool
  listing :: "string list option"
  zips :: "string \<rightharpoonup> zfile list"
  statfs :: "(nat \<times> nat) option"
  f2uImpl :: nat
  createFails :: bool
  zwCloseFails :: bool
  outCloseFails :: bool

text \<open>The errors \<^verbatim>\<open>mergeZIP\<close> returns; the space error carries \<^verbatim>\<open>need\<close> and \<^verbatim>\<open>freeBytes\<close>.\<close>

datatype merr = MkdirErr | ListErr | NoZipFound | NoSpace nat nat | CreateErr | WriteErr | CloseErr

text \<open>
  What the job does to the outside, in order. \<open>Header\<close> records a successful
  \<^verbatim>\<open>zw.CreateHeader\<close> with the archive and entry it was made for, the name, whether the
  method is deflate, and the declared size. \<open>WriteChunk\<close> is a \<^verbatim>\<open>bw.Write\<close> that took the bytes
  of a read, \<open>WriteFailed\<close> one that returned an error, and \<open>FlushFailed\<close> a closing
  \<^verbatim>\<open>bw.Flush\<close> whose error the program drops. \<open>Render\<close> is a printed progress line: prefix,
  archive percentage, bytes done and total, overall percentage, overall bytes done and total.
\<close>

datatype event =
    WarnArchive string
  | CreateOutput string
  | Header string string string bool nat
  | WarnHeader string
  | WarnOpen string string
  | WriteChunk nat
  | WriteFailed
  | FlushFailed
  | WarnRead string string
  | Render string int nat nat int nat nat
  | Newline
  | Finished string

record mstate =
  overallDone :: nat
  dedup :: "string \<rightharpoonup> int"
  doneZip :: nat
  lastZipPct :: int
  lastAllPct :: int
  trace :: "event list"

section \<open>Listing and the catalog\<close>

text \<open>
  The sort of \<^verbatim>\<open>listZipFiles\<close>: for each \<open>i\<close>, every later \<open>j\<close> whose string is smaller is
  swapped into position \<open>i\<close>. A swap keeps the length, so both loops run over fixed ranges.
\<close>

definition sortStep :: "nat \<Rightarrow> nat \<Rightarrow> string list \<Rightarrow> string list" where
  "sortStep i j out = (if out ! j < out ! i then out[i := out ! j, j := out ! i] else out)"

definition sortNames :: "string list \<Rightarrow> string list" where
  "sortNames out =
     fold (\<lambda>i out. fold (sortStep i) [i + 1 ..< length out] out) [0 ..< length out] out"

definition listZipFiles :: "env \<Rightarrow> string list option" where
  "listZipFiles e = map_option sortNames (listing e)"

fun sumUncompressedFrom :: "nat \<Rightarrow> zfile list \<Rightarrow> nat" where
  "sumUncompressedFrom tot [] = tot"
| "sumUncompressedFrom tot (f # fs) =
     (if fisDir f then sumUncompressedFrom tot fs
      else sumUncompressedFrom (u64 (tot + fusize f)) fs)"

definition sumUncompressed :: "zfile list \<Rightarrow> nat" where
  "sumUncompressed fs = sumUncompressedFrom 0 fs"

text \<open>The first pass of \<^verbatim>\<open>mergeZIP\<close>: per-archive totals, their sum, and its warnings.\<close>

definition zipTotal :: "env \<Rightarrow> string \<Rightarrow> nat" where
  "zipTotal e name = (case zips e name of None \<Rightarrow> 0 | Some fs \<Rightarrow> sumUncompressed fs)"

fun overallTotalFrom :: "env \<Rightarrow> nat \<Rightarrow> string list \<Rightarrow> nat" where
  "overallTotalFrom e tot [] = tot"
| "overallTotalFrom e tot (name # names) =
     (case zips e name of
        None \<Rightarrow> overallTotalFrom e tot names
      | Some fs \<Rightarrow> overallTotalFrom e (u64 (tot + sumUncompressed fs)) names)"

fun scanWarnings :: "env \<Rightarrow> string list \<Rightarrow> event list" where
  "scanWarnings e [] = []"
| "scanWarnings e (name # names) =
     (case zips e name of
        None \<Rightarrow> WarnArchive name # scanWarnings e names
      | Some fs \<Rightarrow> scanWarnings e names)"

text \<open>The second pass: the compressed total; archives that do not open passed over.\<close>

fun sumCompressedFrom :: "nat \<Rightarrow> zfile list \<Rightarrow> nat" where
  "sumCompressedFrom tot [] = tot"
| "sumCompressedFrom tot (f # fs) =
     (if fisDir f then sumCompressedFrom tot fs
      else sumCompressedFrom (u64 (tot + fcsize f)) fs)"

fun overallCompressedFrom :: "env \<Rightarrow> nat \<Rightarrow> string list \<Rightarrow> nat" where
  "overallCompressedFrom e tot [] = tot"
| "overallCompressedFrom e tot (name # names) =
     (case zips e name of
        None \<Rightarrow> overallCompressedFrom e tot names
      | Some fs \<Rightarrow> overallCompressedFrom e (sumCompressedFrom tot fs) names)"

section \<open>Progress\<close>

text \<open>
  The percentage of \<^verbatim>\<open>printZipProgress\<close>: \<^verbatim>\<open>int((done * 100) / total)\<close> in \<^verbatim>\<open>uint64\<close>, or 100
  when the total is zero.
\<close>

definition pct :: "nat \<Rightarrow> nat \<Rightarrow> int" where
  "pct done tot = (if tot > 0 then asInt (u64 (done * 100) div tot) else 100)"

text \<open>
  \<^verbatim>\<open>printZipProgress\<close> prints only when one of the two percentages differs from the one
  last printed, and then stores both. Elapsed time and ETA of the line are left out.
\<close>

definition printZipProgress ::
  "string \<Rightarrow> nat \<Rightarrow> nat \<Rightarrow> nat \<Rightarrow> nat \<Rightarrow> mstate \<Rightarrow> mstate" where
  "printZipProgress prefix done tot allDone allTotal st =
     (let zp = pct done tot; ap = pct allDone allTotal
      in if zp \<noteq> lastZipPct st \<or> ap \<noteq> lastAllPct st
         then st\<lparr>lastZipPct := zp, lastAllPct := ap,
                 trace := trace st @ [Render prefix zp done tot ap allDone allTotal]\<rparr>
         else st)"

section \<open>The merge\<close>

text \<open>
  The writer \<^verbatim>\<open>bw\<close> of an entry is a \<^verbatim>\<open>bufio.Writer\<close> of the default size over \<^verbatim>\<open>w\<close>: \<open>bn\<close>
  bytes wait in its buffer and \<open>bcalls\<close> calls of \<^verbatim>\<open>w.Write\<close> have been made. \<^verbatim>\<open>bw.Write\<close> of \<open>m\<close>
  bytes, as \<^verbatim>\<open>bufio\<close> has it: while the bytes do not fit into the room left, they go to
  \<^verbatim>\<open>w\<close> at once if the buffer is empty, else the buffer is filled up and flushed; what is
  left at the end is put into the buffer. The result is \<open>None\<close> when a call of \<^verbatim>\<open>w.Write\<close>
  returned an error.
\<close>

definition bufSize :: nat where
  "bufSize = 4096"

record bwriter =
  bn :: nat
  bcalls :: nat

definition newWriter :: bwriter where
  "newWriter = \<lparr>bn = 0, bcalls = 0\<rparr>"

function bwWrite :: "nat option \<Rightarrow> bwriter \<Rightarrow> nat \<Rightarrow> bwriter option" where
  "bwWrite fail b m =
     (if m > bufSize - bn b
      then if fail = Some (bcalls b) then None
           else if bn b = 0 then bwWrite fail (b\<lparr>bcalls := bcalls b + 1\<rparr>) 0
           else bwWrite fail \<lparr>bn = 0, bcalls = bcalls b + 1\<rparr> (m - (bufSize - bn b))
      else Some (b\<lparr>bn := bn b + m\<rparr>))"
  by pat_completeness auto
termination
  by (relation "measure (\<lambda>(fail, b, m). m + bn b)") auto

declare bwWrite.simps [simp del]

text \<open>
  \<^verbatim>\<open>bw.Flush\<close> after the copy loop: the bytes that wait go to \<^verbatim>\<open>w\<close> in one call. The
  program drops the error of this call, and the writer is not used again.
\<close>

definition closingFlush :: "nat option \<Rightarrow> bwriter \<Rightarrow> mstate \<Rightarrow> mstate" where
  "closingFlush fail b st =
     (if bn b > 0 \<and> fail = Some (bcalls b) then st\<lparr>trace := trace st @ [FlushFailed]\<rparr> else st)"

text \<open>
  The copy loop of one entry with the flush that follows it. A failed \<^verbatim>\<open>bw.Write\<close> ends the
  job; a read error other than the end of the data is a warning and ends the entry. The
  result is the fatal error, if any, and the state reached.
\<close>

fun copyLoop ::
  "string \<Rightarrow> nat \<Rightarrow> nat \<Rightarrow> string \<Rightarrow> string \<Rightarrow> nat option \<Rightarrow> bwriter \<Rightarrow> chunk list \<Rightarrow> mstate
     \<Rightarrow> merr option \<times> mstate" where
  "copyLoop prefix totalZip overallTotal name inner fail b [] st = (None, closingFlush fail b st)"
| "copyLoop prefix totalZip overallTotal name inner fail b (c # cs) st =
     (case (if cn c > 0 then bwWrite fail b (cn c) else Some b) of
        None \<Rightarrow> (Some WriteErr, st\<lparr>trace := trace st @ [WriteFailed]\<rparr>)
      | Some b1 \<Rightarrow>
          let st1 =
            (if cn c > 0
             then let dz = u64 (doneZip st + cn c); od = u64 (overallDone st + cn c)
                  in printZipProgress prefix dz totalZip od overallTotal
                       (st\<lparr>overallDone := od, doneZip := dz,
                           trace := trace st @ [WriteChunk (cn c)]\<rparr>)
             else st)
          in case cerr c of
               NoErr \<Rightarrow> copyLoop prefix totalZip overallTotal name inner fail b1 cs st1
             | EOF \<Rightarrow> (None, closingFlush fail b1 st1)
             | ReadFail \<Rightarrow>
                 (None, closingFlush fail b1 (st1\<lparr>trace := trace st1 @ [WarnRead inner name]\<rparr>)))"

text \<open>One entry: directories and skipped paths are passed over before a target is drawn.\<close>

definition mergeEntry ::
  "options \<Rightarrow> string \<Rightarrow> nat \<Rightarrow> nat \<Rightarrow> string \<Rightarrow> zfile \<Rightarrow> mstate \<Rightarrow> merr option \<times> mstate" where
  "mergeEntry opt prefix totalZip overallTotal name f st =
     (if fisDir f then (None, st)
      else if shouldSkipPath (fname f) then (None, st)
      else
        let (target, dedup') = mapTargetName (prefixByZip opt) name (fname f) (dedup st);
            st1 = st\<lparr>dedup := dedup'\<rparr>
        in if fhdrFails f
           then (None, st1\<lparr>trace := trace st1 @ [WarnHeader (toSlash target)]\<rparr>)
           else
             let st2 = st1\<lparr>trace := trace st1 @
                          [Header name (fname f) (toSlash target) (\<not> store opt) (fusize f)]\<rparr>
             in if fopenFails f
                then (None, st2\<lparr>trace := trace st2 @ [WarnOpen (fname f) name]\<rparr>)
                else copyLoop prefix totalZip overallTotal name (fname f) (fwfail f) newWriter
                       (fchunks f) st2)"

fun mergeEntries ::
  "options \<Rightarrow> string \<Rightarrow> nat \<Rightarrow> nat \<Rightarrow> string \<Rightarrow> zfile list \<Rightarrow> mstate \<Rightarrow> merr option \<times> mstate" where
  "mergeEntries opt prefix totalZip overallTotal name [] st = (None, st)"
| "mergeEntries opt prefix totalZip overallTotal name (f # fs) st =
     (case mergeEntry opt prefix totalZip overallTotal name f st of
        (Some err, st') \<Rightarrow> (Some err, st')
      | (None, st') \<Rightarrow> mergeEntries opt prefix totalZip overallTotal name fs st')"

definition progressPrefix :: "nat \<Rightarrow> nat \<Rightarrow> string \<Rightarrow> string" where
  "progressPrefix idx n name =
     ''['' @ fmtD (int idx + 1) @ ''/'' @ fmtD (int n) @ ''] '' @ name"

text \<open>
  One archive of the third loop: a warning when it does not open; otherwise the archive
  counters start afresh, the entries are merged, and a last progress line is printed with
  the archive's bytes done set to its total.
\<close>

definition mergeArchive ::
  "options \<Rightarrow> env \<Rightarrow> nat \<Rightarrow> nat \<Rightarrow> nat \<Rightarrow> string \<Rightarrow> mstate \<Rightarrow> merr option \<times> mstate" where
  "mergeArchive opt e overallTotal n idx name st =
     (case zips e name of
        None \<Rightarrow> (None, st\<lparr>trace := trace st @ [WarnArchive name]\<rparr>)
      | Some fs \<Rightarrow>
          let totalZip = zipTotal e name;
              prefix = progressPrefix idx n name;
              st0 = st\<lparr>doneZip := 0, lastZipPct := - 1, lastAllPct := - 1\<rparr>
          in case mergeEntries opt prefix totalZip overallTotal name fs st0 of
               (Some err, st') \<Rightarrow> (Some err, st')
             | (None, st') \<Rightarrow>
                 let st'' = printZipProgress prefix totalZip totalZip
                              (overallDone st') overallTotal st'
                 in (None, st''\<lparr>trace := trace st'' @ [Newline]\<rparr>))"

fun mergeArchives ::
  "options \<Rightarrow> env \<Rightarrow> nat \<Rightarrow> nat \<Rightarrow> nat \<Rightarrow> string list \<Rightarrow> mstate \<Rightarrow> merr option \<times> mstate" where
  "mergeArchives opt e overallTotal n idx [] st = (None, st)"
| "mergeArchives opt e overallTotal n idx (name # names) st =
     (case mergeArchive opt e overallTotal n idx name st of
        (Some err, st') \<Rightarrow> (Some err, st')
      | (None, st') \<Rightarrow> mergeArchives opt e overallTotal n (idx + 1) names st')"

definition initState :: "event list \<Rightarrow> mstate" where
  "initState tr =
     \<lparr>overallDone = 0, dedup = Map.empty, doneZip = 0,
      lastZipPct = - 1, lastAllPct = - 1, trace = tr\<rparr>"

text \<open>
  \<^verbatim>\<open>mergeZIP\<close>: the result is the error or the output path, with everything the job did.
\<close>

definition mergeZIP :: "options \<Rightarrow> env \<Rightarrow> (merr + string) \<times> event list" where
  "mergeZIP opt e =
     (if mkdirFails e then (Inl MkdirErr, [])
      else
        let outPath = filepathJoin (outDir opt) (outBase opt @ ''.zip'')
        in case listZipFiles e of
             None \<Rightarrow> (Inl ListErr, [])
           | Some names \<Rightarrow>
               if length names = 0 then (Inl NoZipFound, [])
               else
                 let overallTotal = overallTotalFrom e 0 names;
                     tr1 = scanWarnings e names;
                     overallCompressed = overallCompressedFrom e 0 names;
                     free = freeBytes (statfs e);
                     need = diskNeed (f2uImpl e) (store opt) overallTotal overallCompressed
                 in if spaceRejected free need then (Inl (NoSpace need free), tr1)
                    else if createFails e then (Inl CreateErr, tr1)
                    else
                      case mergeArchives opt e overallTotal (length names) 0 names
                             (initState (tr1 @ [CreateOutput outPath])) of
                        (Some err, st) \<Rightarrow> (Inl err, trace st)
                      | (None, st) \<Rightarrow>
                          if zwCloseFails e then (Inl CloseErr, trace st)
                          else if outCloseFails e then (Inl CloseErr, trace st)
                          else (Inr outPath, trace st @ [Finished outPath]))"

text \<open>What is read off a trace: the overall percentages printed, and the bytes written.\<close>

fun overallPcts :: "event list \<Rightarrow> int list" where
  "overallPcts [] = []"
| "overallPcts (Render prefix zp dz tz ap od ot # es) = ap # overallPcts es"
| "overallPcts (ev # es) = overallPcts es"

fun bytesWritten :: "event list \<Rightarrow> nat" where
  "bytesWritten [] = 0"
| "bytesWritten (WriteChunk n # es) = n + bytesWritten es"
| "bytesWritten (ev # es) = bytesWritten es"

fun headerNames :: "event list \<Rightarrow> string list" where
  "headerNames [] = []"
| "headerNames (Header name inner target deflate sz # es) = target # headerNames es"
| "headerNames (ev # es) = headerNames es"

fun headerSources :: "event list \<Rightarrow> (string \<times> string) list" where
  "headerSources [] = []"
| "headerSources (Header name inner target deflate sz # es) = (name, target) # headerSources es"
| "headerSources (ev # es) = headerSources es"

section \<open>Part sizes\<close>

text \<open>
  \<^verbatim>\<open>strings.TrimSpace\<close> removes the white space of Unicode at both ends. In UTF-8 these are
  the six ASCII characters and the sequences listed in \<open>wideSpaces\<close> (U+0085, U+00A0,
  U+1680, U+2000 to U+200A, U+2028, U+2029, U+202F, U+205F, U+3000).
\<close>

definition asciiSpaces :: "string list" where
  "asciiSpaces = map (\<lambda>c. [c]) [CHR 0x09, CHR 0x0A, CHR 0x0B, CHR 0x0C, CHR 0x0D, CHR 0x20]"

definition wideSpaces :: "string list" where
  "wideSpaces =
     [[CHR 0xC2, CHR 0x85], [CHR 0xC2, CHR 0xA0], [CHR 0xE1, CHR 0x9A, CHR 0x80]] @
     map (\<lambda>c. [CHR 0xE2, CHR 0x80, c])
       [CHR 0x80, CHR 0x81, CHR 0x82, CHR 0x83, CHR 0x84, CHR 0x85, CHR 0x86, CHR 0x87,
        CHR 0x88, CHR 0x89, CHR 0x8A, CHR 0xA8, CHR 0xA9, CHR 0xAF] @
     [[CHR 0xE2, CHR 0x81, CHR 0x9F], [CHR 0xE3, CHR 0x80, CHR 0x80]]"

fun stripOne :: "string list \<Rightarrow> string \<Rightarrow> string option" where
  "stripOne [] s = None"
| "stripOne (p # ps) s =
     (if p \<noteq> [] \<and> hasPrefix s p then Some (drop (length p) s) else stripOne ps s)"

function trimLeftRunes :: "string list \<Rightarrow> string \<Rightarrow> string" where
  "trimLeftRunes pats s =
     (case stripOne pats s of None \<Rightarrow> s | Some r \<Rightarrow> trimLeftRunes pats r)"
  by pat_completeness auto
termination
proof (relation "measure (\<lambda>(pats, s). length s)")
  show "wf (measure (\<lambda>(pats, s). length s))"
    by simp
next
  fix pats :: "string list" and s r :: string
  assume "stripOne pats s = Some r"
  then have "length r < length s"
  proof (induction pats)
    case Nil
    then show ?case by simp
  next
    case (Cons p ps)
    show ?case
    proof (cases "p \<noteq> [] \<and> hasPrefix s p")
      case True
      then have "length (take (length p) s) = length p"
        by (simp add: hasPrefix_def)
      then have "length p \<le> length s"
        by simp
      moreover have "p \<noteq> []"
        using True by simp
      moreover have "r = drop (length p) s"
        using Cons.prems True by simp
      ultimately show ?thesis
        by (cases p) auto
    next
      case False
      then show ?thesis
        using Cons by auto
    qed
  qed
  then show "((pats, r), (pats, s)) \<in> measure (\<lambda>(pats, s). length s)"
    by simp
qed

declare trimLeftRunes.simps [simp del]

definition trimSpace :: "string \<Rightarrow> string" where
  "trimSpace s =
     (let pats = asciiSpaces @ wideSpaces
      in rev (trimLeftRunes (map rev pats) (rev (trimLeftRunes pats s))))"

text \<open>
  The expression \<^verbatim>\<open>(?i)^\s*([0-9]+)\s*([kmgt]?)\s*$\<close>: \<^verbatim>\<open>\s\<close> is one of tab, newline, form
  feed, carriage return and space; under \<^verbatim>\<open>(?i)\<close> the letter k also matches the Kelvin sign
  U+212A, which \<^verbatim>\<open>strings.ToLower\<close> turns into k. The result is the digits and the
  multiplier of the unit.
\<close>

definition isRegexSpace :: "char \<Rightarrow> bool" where
  "isRegexSpace c = (c \<in> set [CHR 0x09, CHR 0x0A, CHR 0x0C, CHR 0x0D, CHR 0x20])"

definition isDigit :: "char \<Rightarrow> bool" where
  "isDigit c = (48 \<le> (of_char c :: nat) \<and> (of_char c :: nat) \<le> 57)"

definition unitOf :: "string \<Rightarrow> int \<times> string" where
  "unitOf s =
     (if hasPrefix s [CHR 0xE2, CHR 0x84, CHR 0xAA] then (1024, drop 3 s)
      else case s of
        [] \<Rightarrow> (1, [])
      | c # r \<Rightarrow>
          if c = CHR ''k'' \<or> c = CHR ''K'' then (1024, r)
          else if c = CHR ''m'' \<or> c = CHR ''M'' then (1024 * 1024, r)
          else if c = CHR ''g'' \<or> c = CHR ''G'' then (1024 * 1024 * 1024, r)
          else if c = CHR ''t'' \<or> c = CHR ''T'' then (1024 * 1024 * 1024 * 1024, r)
          else (1, s))"

definition matchSize :: "string \<Rightarrow> (string \<times> int) option" where
  "matchSize s =
     (let s1 = dropWhile isRegexSpace s;
          ds = takeWhile isDigit s1;
          s2 = dropWhile isRegexSpace (dropWhile isDigit s1);
          (mul, s3) = unitOf s2
      in if ds \<noteq> [] \<and> dropWhile isRegexSpace s3 = [] then Some (ds, mul) else None)"

text \<open>
  \<^verbatim>\<open>strconv.ParseInt\<close> on digits: the number, or the largest \<^verbatim>\<open>int64\<close> when it does not fit
  (the error is dropped by the caller). The product with the multiplier wraps in \<^verbatim>\<open>int64\<close>.
\<close>

definition digitsValue :: "string \<Rightarrow> int" where
  "digitsValue ds = foldl (\<lambda>a c. 10 * a + (int (of_char c) - 48)) 0 ds"

definition parseInt64 :: "string \<Rightarrow> int" where
  "parseInt64 ds = min (digitsValue ds) (2 ^ 63 - 1)"

definition wrap64 :: "int \<Rightarrow> int" where
  "wrap64 x = (x + 2 ^ 63) mod 2 ^ 64 - 2 ^ 63"

datatype serr =
    SplitBadSize | SplitNotPositive | SplitOpen | SplitStat
  | SplitCreate | SplitWrite | SplitRead | SplitRemove

definition parseSize :: "string \<Rightarrow> serr + int" where
  "parseSize s =
     (case matchSize (trimSpace s) of
        None \<Rightarrow> Inl SplitBadSize
      | Some (ds, mul) \<Rightarrow> Inr (wrap64 (parseInt64 ds * mul)))"

section \<open>Raw split\<close>

text \<open>
  The files \<^verbatim>\<open>rawSplit\<close> works on: contents by path, and for each path whether a call on
  it fails. A read of the open input returns as many bytes as asked for while they last,
  then the end of the file.
\<close>

record 'b sdisk =
  sfiles :: "string \<rightharpoonup> 'b list"
  dOpenFails :: "string \<Rightarrow> bool"
  dStatFails :: "string \<Rightarrow> bool"
  dCreateFails :: "string \<Rightarrow> bool"
  dWriteFails :: "string \<Rightarrow> bool"
  dReadFails :: "string \<Rightarrow> bool"
  dRemoveFails :: "string \<Rightarrow> bool"

definition bufLen :: nat where
  "bufLen = 4 * 1024 * 1024"

text \<open>The verb \<^verbatim>\<open>%03d\<close> for a part index: decimal, filled with zeros up to three digits.\<close>

definition pad3 :: "nat \<Rightarrow> string" where
  "pad3 n = replicate (3 - length (decimal n)) (CHR ''0'') @ decimal n"

definition partName :: "string \<Rightarrow> nat \<Rightarrow> string" where
  "partName path idx = (path @ ''.part-'') @ pad3 idx"

text \<open>
  The inner loop fills one part: the error if any, the input left, the bytes of the part,
  and the running count \<^verbatim>\<open>written\<close>.
\<close>

function copyPart ::
  "bool \<Rightarrow> bool \<Rightarrow> nat \<Rightarrow> nat \<Rightarrow> 'b list \<Rightarrow> 'b list \<Rightarrow> nat
     \<Rightarrow> serr option \<times> 'b list \<times> 'b list \<times> nat" where
  "copyPart rdFails wrFails partSize copied inp out written =
     (if copied < partSize then
        let toRead = min bufLen (partSize - copied);
            n = (if rdFails \<or> inp = [] then 0 else min toRead (length inp));
            rErr = (if rdFails then ReadFail else if inp = [] then EOF else NoErr)
        in if n > 0 \<and> wrFails then (Some SplitWrite, drop n inp, out, written)
           else if rErr = EOF then (None, inp, out, written)
           else if rErr = ReadFail then (Some SplitRead, inp, out, written)
           else copyPart rdFails wrFails partSize (copied + n) (drop n inp)
                  (out @ take n inp) (written + n)
      else (None, inp, out, written))"
  by pat_completeness auto
termination
  by (relation "measure (\<lambda>(rf, wf, partSize, copied, inp, out, written). partSize - copied)")
     (auto simp: bufLen_def min_def length_greater_0_conv [symmetric]
           simp del: length_greater_0_conv split: if_splits)

declare copyPart.simps [simp del]

text \<open>
  The outer loop, one part per turn. It ends when \<^verbatim>\<open>written\<close> has reached \<^verbatim>\<open>total\<close>, which
  the source reads once from \<^verbatim>\<open>Stat\<close>; the value \<open>None\<close> stands for a loop that never ends.
\<close>

partial_function (option) splitLoop ::
  "'b sdisk \<Rightarrow> string \<Rightarrow> nat \<Rightarrow> nat \<Rightarrow> nat \<Rightarrow> 'b list \<Rightarrow> nat \<Rightarrow> (serr option \<times> 'b sdisk) option" where
  "splitLoop d path partSize tot partIdx inp written =
     (if dCreateFails d (partName path partIdx) then Some (Some SplitCreate, d)
      else
        case copyPart (dReadFails d path) (dWriteFails d (partName path partIdx))
               partSize 0 inp [] written of
          (err, inp', out, written') \<Rightarrow>
            (let d' = d\<lparr>sfiles := (sfiles d)(partName path partIdx \<mapsto> out)\<rparr>
             in case err of
                  Some e \<Rightarrow> Some (Some e, d')
                | None \<Rightarrow>
                    if written' \<ge> tot then Some (None, d')
                    else splitLoop d' path partSize tot (partIdx + 1) inp' written'))"

definition rawSplit ::
  "'b sdisk \<Rightarrow> string \<Rightarrow> string \<Rightarrow> bool \<Rightarrow> (serr option \<times> 'b sdisk) option" where
  "rawSplit d path partSizeStr rmAfter =
     (case parseSize partSizeStr of
        Inl err \<Rightarrow> Some (Some err, d)
      | Inr partSize \<Rightarrow>
          if partSize \<le> 0 then Some (Some SplitNotPositive, d)
          else
            case (if dOpenFails d path then None else sfiles d path) of
              None \<Rightarrow> Some (Some SplitOpen, d)
            | Some content \<Rightarrow>
                if dStatFails d path then Some (Some SplitStat, d)
                else if length content = 0 then Some (None, d)
                else
                  case splitLoop d path (nat partSize) (length content) 0 content 0 of
                    None \<Rightarrow> None
                  | Some (Some err, d') \<Rightarrow> Some (Some err, d')
                  | Some (None, d') \<Rightarrow>
                      if rmAfter
                      then if dRemoveFails d' path then Some (Some SplitRemove, d')
                           else Some (None, d'\<lparr>sfiles := (sfiles d')(path := None)\<rparr>)
                      else Some (None, d'))"

section \<open>Sample inputs\<close>

text \<open>
  The options \<^verbatim>\<open>parseFlags\<close> yields when no flag is given, an entry that is an ordinary
  file read in one piece without any failure, and surroundings in which nothing fails and
  the free space is not known.
\<close>

definition defaultOptions :: options where
  "defaultOptions =
     \<lparr>inputDir = ''abcxyz'', outDir = ''abcxyz_output'', outBase = ''merged'',
      filterGlob = ''*.zip'', store = False, deflateLevel = - 1, chunkMB = 4,
      prefixByZip = False, splitSize = [], splitMode = ''raw'', rmAfterSplit = False\<rparr>"

definition plainFile :: "string \<Rightarrow> nat \<Rightarrow> zfile" where
  "plainFile name n =
     \<lparr>fname = name, fisDir = False, fusize = n, fcsize = n,
      fhdrFails = False, fopenFails = False, fchunks = [Chunk n NoErr], fwfail = None\<rparr>"

definition quietEnv :: "string list \<Rightarrow> (string \<times> zfile list) list \<Rightarrow> env" where
  "quietEnv names archives =
     \<lparr>mkdirFails = False, listing = Some names, zips = map_of archives, statfs = None,
      f2uImpl = 0, createFails = False, zwCloseFails = False, outCloseFails = False\<rparr>"

section \<open>Numbering of repeated candidates, as specified\<close>

text \<open>
  The table a job is left with, the candidates of its entries, and the name the
  specification gives to the \<open>N\<close>-th repetition of a candidate: \<^verbatim>\<open>__dup<N>\<close> goes in front of
  the last dot and what follows it, or to the end when there is no dot.
\<close>

fun dedupFrom ::
  "bool \<Rightarrow> (string \<rightharpoonup> int) \<Rightarrow> (string \<times> string) list \<Rightarrow> (string \<rightharpoonup> int)" where
  "dedupFrom p tbl [] = tbl"
| "dedupFrom p tbl ((z, i) # xs) = dedupFrom p (snd (mapTargetName p z i tbl)) xs"

definition candidates :: "bool \<Rightarrow> (string \<times> string) list \<Rightarrow> string list" where
  "candidates p xs = map (\<lambda>(z, i). targetBase p z i) xs"

definition suffixedName :: "string \<Rightarrow> nat \<Rightarrow> string" where
  "suffixedName b N =
     (if CHR ''.'' \<in> set b
      then let ext = CHR ''.'' # rev (takeWhile (\<lambda>c. c \<noteq> CHR ''.'') (rev b));
               root = take (length b - length ext) b
           in root @ ''__dup'' @ decimal N @ ext
      else b @ ''__dup'' @ decimal N)"

section \<open>The parts of a split, as specified\<close>

text \<open>
  The parts the specification asks for: the file cut into pieces of the part size, the last
  one holding the rest. \<open>storeParts\<close> writes a list of parts under consecutive part names,
  and \<open>quietDisk\<close> is a disk with one file on which no call fails.
\<close>

function partsOf :: "nat \<Rightarrow> 'b list \<Rightarrow> 'b list list" where
  "partsOf ps xs = (if ps = 0 \<or> xs = [] then [] else take ps xs # partsOf ps (drop ps xs))"
  by pat_completeness auto
termination
  by (relation "measure (\<lambda>(ps, xs). length xs)") auto

declare partsOf.simps [simp del]

fun storeParts :: "(string \<rightharpoonup> 'b list) \<Rightarrow> string \<Rightarrow> nat \<Rightarrow> 'b list list \<Rightarrow> (string \<rightharpoonup> 'b list)" where
  "storeParts m path idx [] = m"
| "storeParts m path idx (c # cs) = storeParts (m(partName path idx \<mapsto> c)) path (idx + 1) cs"

definition quietDisk :: "string \<Rightarrow> 'b list \<Rightarrow> 'b sdisk" where
  "quietDisk path content =
     \<lparr>sfiles = [path \<mapsto> content], dOpenFails = (\<lambda>q. False), dStatFails = (\<lambda>q. False),
      dCreateFails = (\<lambda>q. False), dWriteFails = (\<lambda>q. False), dReadFails = (\<lambda>q. False),
      dRemoveFails = (\<lambda>q. False)\<rparr>"

section \<open>Auxiliary predicates on traces\<close>

text \<open>
  A stretch of trace fits a result when it holds no failed write and the result is no
  error, or the result is the write error and the failed write is its last event and the
  only one.
\<close>

definition endsAtWriteFailure :: "merr option \<Rightarrow> event list \<Rightarrow> bool" where
  "endsAtWriteFailure res evs =
     (case res of
        None \<Rightarrow> WriteFailed \<notin> set evs
      | Some err \<Rightarrow> err = WriteErr \<and> (\<exists>pre. evs = pre @ [WriteFailed] \<and> WriteFailed \<notin> set pre))"

section \<open>Bytes of a job and invariants of its progress\<close>

text \<open>
  The bytes the readers of a job can deliver at most, the overall total of its catalog,
  and what holds of the state while it runs: the bytes done are the bytes written, the
  overall percentages printed so far are in order and none is above the current one
  (\<open>countInv\<close>); within an archive the stored overall percentage is the one printed last
  (\<open>shownInv\<close>); between archives the last one printed is the current one (\<open>restInv\<close>).
\<close>

definition chunkBytes :: "chunk list \<Rightarrow> nat" where
  "chunkBytes cs = sum_list (map cn cs)"

definition fileBytes :: "zfile list \<Rightarrow> nat" where
  "fileBytes fs = sum_list (map (\<lambda>f. chunkBytes (fchunks f)) fs)"

definition namesBytes :: "env \<Rightarrow> string list \<Rightarrow> nat" where
  "namesBytes e names =
     sum_list (map (\<lambda>name. case zips e name of None \<Rightarrow> 0 | Some fs \<Rightarrow> fileBytes fs) names)"

definition jobBytes :: "env \<Rightarrow> nat" where
  "jobBytes e = (case listZipFiles e of None \<Rightarrow> 0 | Some names \<Rightarrow> namesBytes e names)"

definition catalogTotal :: "env \<Rightarrow> nat" where
  "catalogTotal e = (case listZipFiles e of None \<Rightarrow> 0 | Some names \<Rightarrow> overallTotalFrom e 0 names)"

definition countInv :: "nat \<Rightarrow> mstate \<Rightarrow> bool" where
  "countInv T st =
     (bytesWritten (trace st) = overallDone st
      \<and> sorted (overallPcts (trace st))
      \<and> (\<forall>a\<in>set (overallPcts (trace st)). a \<le> pct (overallDone st) T))"

definition shownInv :: "mstate \<Rightarrow> bool" where
  "shownInv st =
     (lastAllPct st = - 1
      \<or> (overallPcts (trace st) \<noteq> [] \<and> last (overallPcts (trace st)) = lastAllPct st))"

definition restInv :: "nat \<Rightarrow> mstate \<Rightarrow> bool" where
  "restInv T st =
     (overallPcts (trace st) = [] \<or> last (overallPcts (trace st)) = pct (overallDone st) T)"

section \<open>The entries of a job that draw a target\<close>

text \<open>
  The targets drawn in a trace (for created headers and for headers that could not be
  created), the entries of an archive that reach \<^verbatim>\<open>mapTargetName\<close>, those of a whole job
  in processing order, and the relation between two states of a job that have drawn
  targets for a list of such entries in between.
\<close>

fun drawnTargets :: "event list \<Rightarrow> string list" where
  "drawnTargets [] = []"
| "drawnTargets (Header name inner target deflate sz # es) = target # drawnTargets es"
| "drawnTargets (WarnHeader target # es) = target # drawnTargets es"
| "drawnTargets (ev # es) = drawnTargets es"

definition keptInputs :: "string \<Rightarrow> zfile list \<Rightarrow> (string \<times> string) list" where
  "keptInputs name fs =
     map (\<lambda>f. (name, fname f)) (filter (\<lambda>f. \<not> fisDir f \<and> \<not> shouldSkipPath (fname f)) fs)"

definition mergedInputs :: "env \<Rightarrow> string list \<Rightarrow> (string \<times> string) list" where
  "mergedInputs e names =
     concat (map (\<lambda>name. case zips e name of None \<Rightarrow> [] | Some fs \<Rightarrow> keptInputs name fs) names)"

definition drawsInv :: "bool \<Rightarrow> (string \<times> string) list \<Rightarrow> mstate \<Rightarrow> mstate \<Rightarrow> bool" where
  "drawsInv p xs st st' =
     (\<exists>evs. trace st' = trace st @ evs
        \<and> drawnTargets evs = mapTargetsFrom p (dedup st) xs
        \<and> dedup st' = dedupFrom p (dedup st) xs)"

section \<open>A list sorted up to a position\<close>

text \<open>
  What the outer loop of the sort has reached after \<open>i\<close> turns: the first \<open>i\<close> strings are in
  order and none of them is above a later one.
\<close>

definition sortedUpTo :: "nat \<Rightarrow> string list \<Rightarrow> bool" where
  "sortedUpTo i out =
     (sorted (take i out) \<and> (\<forall>x\<in>set (take i out). \<forall>y\<in>set (drop i out). x \<le> y))"

section \<open>The entries a catalog counts\<close>

text \<open>
  The entries of an archive that are not directories, and the entries of all the archives
  of a list that open, in the order of the list.
\<close>

definition nonDirs :: "zfile list \<Rightarrow> zfile list" where
  "nonDirs fs = filter (\<lambda>f. \<not> fisDir f) fs"

definition openedEntries :: "env \<Rightarrow> string list \<Rightarrow> zfile list" where
  "openedEntries e names =
     concat (map (\<lambda>name. case zips e name of None \<Rightarrow> [] | Some fs \<Rightarrow> fs) names)"

section \<open>The entries a job works through\<close>













section \<open>Evaluation on numerals\<close>

lemma bitLen_numeral [simp]: "bitLen (numeral k) = Suc (bitLen (numeral k div 2))"
  by (subst bitLen.simps) simp

lemma bitLen_0 [simp]: "bitLen 0 = 0"
  by (simp add: bitLen.simps)

lemma bitLen_1 [simp]: "bitLen (Suc 0) = 1"
  by (simp add: bitLen.simps)

lemma decimal_numeral [simp]:
  "decimal (numeral k) =
     (if numeral k < (10::nat) then [digitChar (numeral k)]
      else decimal (numeral k div 10) @ [digitChar (numeral k mod 10)])"
  by (subst decimal.simps) simp

lemma decimal_0 [simp]: "decimal 0 = ''0''"
  by (simp add: decimal.simps digitChar_def)

lemma decimal_1 [simp]: "decimal (Suc 0) = ''1''"
  by (simp add: decimal.simps digitChar_def)

lemmas need_defs =
  diskNeed_def uint64OfFloat64_def f64Mul_def float64OfUint64_def c105_def c110_def c125_def
  rne53_def freeBytes_def spaceRejected_def u64_def

lemmas name_defs =
  mapTargetName_def targetBase_def trimLeftSeps_def toSlash_def shouldSkipPath_def
  hasPrefix_def hasSuffix_def dupName_def lastIndexDot_def trimSuffix_def filepathExt_def
  filepathJoin_def filepathClean_def fmtD_def digitChar_def

lemmas job_defs =
  mergeZIP_def listZipFiles_def sortNames_def sortStep_def quietEnv_def plainFile_def
  defaultOptions_def initState_def mergeArchive_def mergeEntry_def zipTotal_def
  sumUncompressed_def progressPrefix_def printZipProgress_def pct_def asInt_def
  bwWrite.simps newWriter_def bufSize_def closingFlush_def


section \<open>The order of the archives\<close>

text \<open>
  The sort of \<^verbatim>\<open>listZipFiles\<close> returns the names it is given, each as often as before, in
  ascending order of Go's string comparison.
\<close>

lemma length_sortStep [simp]: "length (sortStep i j out) = length out"
  by (simp add: sortStep_def)

lemma take_sortStep: "i \<le> j \<Longrightarrow> take i (sortStep i j out) = take i out"
  by (simp add: sortStep_def)

lemma mset_drop_sortStep:
  assumes "i < j" and "j < length out"
  shows "mset (drop i (sortStep i j out)) = mset (drop i out)"
proof (cases "out ! j < out ! i")
  case False
  then show ?thesis by (simp add: sortStep_def)
next
  case True
  let ?d = "drop i out"
  have "drop i (out[i := out ! j, j := out ! i]) = ?d[0 := ?d ! (j - i), j - i := ?d ! 0]"
    using assms by (simp add: drop_update_swap)
  moreover have "mset (?d[0 := ?d ! (j - i), j - i := ?d ! 0]) = mset ?d"
    using assms mset_swap [of "j - i" ?d 0] by simp
  ultimately show ?thesis
    using True by (simp add: sortStep_def)
qed

lemma inner_loop:
  assumes "i < length out" and "b \<le> length out"
  defines "r \<equiv> fold (sortStep i) [i + 1 ..< b] out"
  shows "length r = length out \<and> take i r = take i out
     \<and> mset (drop i r) = mset (drop i out)
     \<and> (\<forall>l. i < l \<and> l < b \<longrightarrow> r ! i \<le> r ! l)"
  using assms(2) unfolding r_def
proof (induction b)
  case 0
  then show ?case by simp
next
  case (Suc b)
  show ?case
  proof (cases "i + 1 \<le> b")
    case False
    then show ?thesis by auto
  next
    case True
    let ?r = "fold (sortStep i) [i + 1 ..< b] out"
    have ih: "length ?r = length out" "take i ?r = take i out"
      "mset (drop i ?r) = mset (drop i out)" "\<forall>l. i < l \<and> l < b \<longrightarrow> ?r ! i \<le> ?r ! l"
      using Suc by simp_all
    have unf: "fold (sortStep i) [i + 1 ..< Suc b] out = sortStep i b ?r"
      using True by simp
    have ib: "i < b" "b < length ?r"
      using True Suc.prems ih(1) by simp_all
    have "mset (drop i (sortStep i b ?r)) = mset (drop i out)"
      using mset_drop_sortStep [OF ib] ih(3) by simp
    moreover have "take i (sortStep i b ?r) = take i out"
      using take_sortStep [of i b ?r] ib ih(2) by simp
    moreover have "\<forall>l. i < l \<and> l < Suc b \<longrightarrow> sortStep i b ?r ! i \<le> sortStep i b ?r ! l"
    proof (intro allI impI)
      fix l
      assume l: "i < l \<and> l < Suc b"
      show "sortStep i b ?r ! i \<le> sortStep i b ?r ! l"
      proof (cases "?r ! b < ?r ! i")
        case True
        then have swapped: "sortStep i b ?r = ?r[i := ?r ! b, b := ?r ! i]"
          by (simp add: sortStep_def)
        show ?thesis
        proof (cases "l = b")
          case True
          then show ?thesis
            using swapped \<open>?r ! b < ?r ! i\<close> ib by simp
        next
          case False
          then have "l < b"
            using l by simp
          then have "?r ! i \<le> ?r ! l"
            using ih(4) l by simp
          then show ?thesis
            using swapped \<open>?r ! b < ?r ! i\<close> ib l \<open>l < b\<close> by simp
        qed
      next
        case False
        then have same: "sortStep i b ?r = ?r"
          by (simp add: sortStep_def)
        show ?thesis
        proof (cases "l = b")
          case True
          then show ?thesis
            using same False by simp
        next
          case neq: False
          then show ?thesis
            using same ih(4) l by simp
        qed
      qed
    qed
    ultimately show ?thesis
      using unf ih(1) by simp
  qed
qed

lemma outer_step:
  assumes "i < length out" and "sortedUpTo i out"
  defines "r \<equiv> fold (sortStep i) [i + 1 ..< length out] out"
  shows "length r = length out \<and> mset r = mset out \<and> sortedUpTo (Suc i) r"
proof -
  have inner: "length r = length out" "take i r = take i out"
    "mset (drop i r) = mset (drop i out)" "\<forall>l. i < l \<and> l < length out \<longrightarrow> r ! i \<le> r ! l"
    using inner_loop [OF assms(1), of "length out"] unfolding r_def by simp_all
  have "mset r = mset (take i r) + mset (drop i r)"
    by (metis append_take_drop_id mset_append)
  also have "\<dots> = mset (take i out) + mset (drop i out)"
    using inner by simp
  also have "\<dots> = mset out"
    by (metis append_take_drop_id mset_append)
  finally have perm: "mset r = mset out" .
  have sets: "set (drop i r) = set (drop i out)"
    using inner(3) by (metis set_mset_mset)
  have ir: "i < length r"
    using assms(1) inner(1) by simp
  have take_Suc: "take (Suc i) r = take i out @ [r ! i]"
    using ir inner(2) by (simp add: take_Suc_conv_app_nth)
  have ri_in: "r ! i \<in> set (drop i out)"
    using ir sets by (metis Cons_nth_drop_Suc list.set_intros(1))
  have below: "\<forall>x\<in>set (take i out). x \<le> r ! i"
    using assms(2) ri_in by (simp add: sortedUpTo_def)
  have sorted1: "sorted (take (Suc i) r)"
    using assms(2) below by (simp add: take_Suc sortedUpTo_def sorted_append)
  have rest_in: "set (drop (Suc i) r) \<subseteq> set (drop i out)"
    using sets by (metis set_drop_subset_set_drop Suc_n_not_le_n nat_le_linear)
  have min_i: "\<forall>y\<in>set (drop (Suc i) r). r ! i \<le> y"
  proof
    fix y
    assume "y \<in> set (drop (Suc i) r)"
    then obtain k where k: "k < length (drop (Suc i) r)" "y = drop (Suc i) r ! k"
      by (metis in_set_conv_nth)
    then have "y = r ! (Suc i + k)" "Suc i + k < length out"
      using inner(1) by simp_all
    then show "r ! i \<le> y"
      using inner(4) by simp
  qed
  have "\<forall>x\<in>set (take (Suc i) r). \<forall>y\<in>set (drop (Suc i) r). x \<le> y"
    using assms(2) rest_in min_i by (auto simp: take_Suc sortedUpTo_def)
  then show ?thesis
    using inner(1) perm sorted1 by (simp add: sortedUpTo_def)
qed

lemma outer_loop:
  assumes "k \<le> length out"
  defines "r \<equiv> fold (\<lambda>i out. fold (sortStep i) [i + 1 ..< length out] out) [0 ..< k] out"
  shows "length r = length out \<and> mset r = mset out \<and> sortedUpTo k r"
  using assms(1) unfolding r_def
proof (induction k)
  case 0
  then show ?case by (simp add: sortedUpTo_def)
next
  case (Suc k)
  let ?r = "fold (\<lambda>i out. fold (sortStep i) [i + 1 ..< length out] out) [0 ..< k] out"
  have ih: "length ?r = length out" "mset ?r = mset out" "sortedUpTo k ?r"
    using Suc by simp_all
  have "k < length ?r"
    using Suc.prems ih(1) by simp
  then show ?case
    using outer_step [of k ?r] ih by simp
qed

lemma sortNames_sorts: "sorted (sortNames names) \<and> mset (sortNames names) = mset names"
proof -
  have "length (sortNames names) = length names" and perm: "mset (sortNames names) = mset names"
    and "sortedUpTo (length names) (sortNames names)"
    using outer_loop [of "length names" names] by (simp_all add: sortNames_def)
  then have "sorted (take (length (sortNames names)) (sortNames names))"
    by (simp add: sortedUpTo_def)
  then show ?thesis
    using perm by simp
qed

section \<open>Target names of the examples\<close>

text \<open>
  C1, as stated: two archives that each hold the single entry \<^verbatim>\<open>a.txt\<close>, merged without
  prefix, give the target paths \<^verbatim>\<open>a.txt\<close> and \<^verbatim>\<open>a.txt__dup1\<close>. The job below does not produce
  the second of these names: the name \<^verbatim>\<open>a.txt__dup1\<close> is not among its entries.
\<close>

theorem suffix_after_extension_counterexample:
  "''a.txt__dup1'' \<notin> set (headerNames (snd (mergeZIP defaultOptions
      (quietEnv [''2.zip'', ''1.zip'']
         [(''1.zip'', [plainFile ''a.txt'' 10]), (''2.zip'', [plainFile ''a.txt'' 20])]))))"
  by (simp add: job_defs name_defs need_defs Let_def cong: let_weak_cong)

text \<open>
  C1, amended: for two entries \<^verbatim>\<open>a.txt\<close> of any two archives the targets without prefix are
  \<^verbatim>\<open>a.txt\<close> and \<^verbatim>\<open>a__dup1.txt\<close>, in this order, and in a job the plain name goes to the entry
  of the archive whose name sorts first, also when the directory lists it second. Without
  prefix, \<^verbatim>\<open>x.zip\<close> and \<^verbatim>\<open>y.zip\<close> with one entry \<^verbatim>\<open>root/file.txt\<close> each give \<^verbatim>\<open>root/file.txt\<close>
  and \<^verbatim>\<open>root/file__dup1.txt\<close>; with the prefix they give \<^verbatim>\<open>x/root/file.txt\<close> and
  \<^verbatim>\<open>y/root/file.txt\<close>.
\<close>

theorem merged_target_names:
  "mapTargets False [(z1, ''a.txt''), (z2, ''a.txt'')] = [''a.txt'', ''a__dup1.txt'']
   \<and> headerSources (snd (mergeZIP defaultOptions
         (quietEnv [''2.zip'', ''1.zip'']
            [(''1.zip'', [plainFile ''a.txt'' 10]), (''2.zip'', [plainFile ''a.txt'' 20])])))
       = [(''1.zip'', ''a.txt''), (''2.zip'', ''a__dup1.txt'')]
   \<and> headerSources (snd (mergeZIP defaultOptions
         (quietEnv [''y.zip'', ''x.zip'']
            [(''x.zip'', [plainFile ''root/file.txt'' 10]),
             (''y.zip'', [plainFile ''root/file.txt'' 20])])))
       = [(''x.zip'', ''root/file.txt''), (''y.zip'', ''root/file__dup1.txt'')]
   \<and> headerSources (snd (mergeZIP (defaultOptions\<lparr>prefixByZip := True\<rparr>)
         (quietEnv [''y.zip'', ''x.zip'']
            [(''x.zip'', [plainFile ''root/file.txt'' 10]),
             (''y.zip'', [plainFile ''root/file.txt'' 20])])))
       = [(''x.zip'', ''x/root/file.txt''), (''y.zip'', ''y/root/file.txt'')]"
proof -
  have "mapTargets False [(z1, ''a.txt''), (z2, ''a.txt'')] = [''a.txt'', ''a__dup1.txt'']"
    by (simp add: mapTargets_def name_defs Let_def)
  moreover have "headerSources (snd (mergeZIP defaultOptions
         (quietEnv [''2.zip'', ''1.zip'']
            [(''1.zip'', [plainFile ''a.txt'' 10]), (''2.zip'', [plainFile ''a.txt'' 20])])))
       = [(''1.zip'', ''a.txt''), (''2.zip'', ''a__dup1.txt'')]"
    by (simp add: job_defs name_defs need_defs Let_def cong: let_weak_cong)
  moreover have "headerSources (snd (mergeZIP defaultOptions
         (quietEnv [''y.zip'', ''x.zip'']
            [(''x.zip'', [plainFile ''root/file.txt'' 10]),
             (''y.zip'', [plainFile ''root/file.txt'' 20])])))
       = [(''x.zip'', ''root/file.txt''), (''y.zip'', ''root/file__dup1.txt'')]"
    by (simp add: job_defs name_defs need_defs Let_def cong: let_weak_cong)
  moreover have "headerSources (snd (mergeZIP (defaultOptions\<lparr>prefixByZip := True\<rparr>)
         (quietEnv [''y.zip'', ''x.zip'']
            [(''x.zip'', [plainFile ''root/file.txt'' 10]),
             (''y.zip'', [plainFile ''root/file.txt'' 20])])))
       = [(''x.zip'', ''x/root/file.txt''), (''y.zip'', ''y/root/file.txt'')]"
    by (simp add: job_defs name_defs need_defs Let_def cong: let_weak_cong)
  ultimately show ?thesis
    by blast
qed

text \<open>
  C3: the targets of one job are pairwise distinct, also when an entry name already ends
  in a suffix of the form \<^verbatim>\<open>__dup<N>\<close>. The job below breaks this: \<^verbatim>\<open>x.zip\<close> holds \<^verbatim>\<open>a.txt\<close>,
  \<^verbatim>\<open>y.zip\<close> holds \<^verbatim>\<open>a.txt\<close> and \<^verbatim>\<open>a__dup1.txt\<close>, and the output gets the name \<^verbatim>\<open>a__dup1.txt\<close>
  twice, once made for the second \<^verbatim>\<open>a.txt\<close> and once taken as it is.
\<close>

theorem duplicate_target_paths:
  "headerNames (snd (mergeZIP defaultOptions
      (quietEnv [''x.zip'', ''y.zip'']
         [(''x.zip'', [plainFile ''a.txt'' 10]),
          (''y.zip'', [plainFile ''a.txt'' 20, plainFile ''a__dup1.txt'' 30])])))
     = [''a.txt'', ''a__dup1.txt'', ''a__dup1.txt'']
   \<and> \<not> distinct (mapTargets False
         [(''x.zip'', ''a.txt''), (''y.zip'', ''a.txt''), (''y.zip'', ''a__dup1.txt'')])"
proof -
  have "headerNames (snd (mergeZIP defaultOptions
      (quietEnv [''x.zip'', ''y.zip'']
         [(''x.zip'', [plainFile ''a.txt'' 10]),
          (''y.zip'', [plainFile ''a.txt'' 20, plainFile ''a__dup1.txt'' 30])])))
     = [''a.txt'', ''a__dup1.txt'', ''a__dup1.txt'']"
    by (simp add: job_defs name_defs need_defs Let_def cong: let_weak_cong)
  moreover have "\<not> distinct (mapTargets False
         [(''x.zip'', ''a.txt''), (''y.zip'', ''a.txt''), (''y.zip'', ''a__dup1.txt'')])"
    by (simp add: mapTargets_def name_defs Let_def)
  ultimately show ?thesis
    by blast
qed

section \<open>The numbering of repeated candidates\<close>

lemma takeWhile_shorter: "x \<in> set xs \<Longrightarrow> \<not> P x \<Longrightarrow> length (takeWhile P xs) < length xs"
  by (induction xs) auto

lemma lastIndexFrom_eq:
  "lastIndexFrom i found s =
     (if CHR ''.'' \<in> set s
      then i + int (length s - 1 - length (takeWhile (\<lambda>c. c \<noteq> CHR ''.'') (rev s)))
      else found)"
proof (induction s arbitrary: i found)
  case Nil
  then show ?case by simp
next
  case (Cons c cs)
  show ?case
  proof (cases "CHR ''.'' \<in> set cs")
    case True
    then have "takeWhile (\<lambda>c. c \<noteq> CHR ''.'') (rev cs @ [c]) = takeWhile (\<lambda>c. c \<noteq> CHR ''.'') (rev cs)"
      by (intro takeWhile_append1 [of "CHR ''.''"]) auto
    moreover have "length (takeWhile (\<lambda>c. c \<noteq> CHR ''.'') (rev cs)) < length cs"
      using True takeWhile_shorter [of "CHR ''.''" "rev cs" "\<lambda>c. c \<noteq> CHR ''.''"] by simp
    ultimately show ?thesis
      using True by (simp add: Cons.IH)
  next
    case False
    then have tw: "takeWhile (\<lambda>c. c \<noteq> CHR ''.'') (rev cs @ [c]) = rev cs @ takeWhile (\<lambda>c. c \<noteq> CHR ''.'') [c]"
      by (intro takeWhile_append2) auto
    show ?thesis
    proof (cases "c = CHR ''.''")
      case True
      then have "length (takeWhile (\<lambda>c. c \<noteq> CHR ''.'') (rev (c # cs))) = length cs"
        using tw by simp
      then show ?thesis
        using True False by (simp add: Cons.IH)
    next
      case c: False
      then show ?thesis
        using False by (simp add: Cons.IH)
    qed
  qed
qed

lemma split_at_last: 
  assumes "x \<in> set b"
  shows "\<exists>pre. b = pre @ x # rev (takeWhile (\<lambda>c. c \<noteq> x) (rev b))"
proof -
  let ?t = "takeWhile (\<lambda>c. c \<noteq> x) (rev b)"
  let ?d = "dropWhile (\<lambda>c. c \<noteq> x) (rev b)"
  have "?d \<noteq> []"
    using assms by simp
  moreover from this have "hd ?d = x"
    using hd_dropWhile [of "\<lambda>c. c \<noteq> x" "rev b"] by simp
  ultimately obtain rest where "?d = x # rest"
    by (cases ?d) auto
  then have "rev b = ?t @ x # rest"
    using takeWhile_dropWhile_id [of "\<lambda>c. c \<noteq> x" "rev b"] by simp
  then have "rev (rev b) = rev (?t @ x # rest)"
    by simp
  then have "b = rev rest @ x # rev ?t"
    by simp
  then show ?thesis
    by blast
qed

lemma dupName_suffixedName: 
  assumes c: "0 \<le> c" 
  shows "dupName b c = suffixedName b (nat c)"
proof (cases "CHR ''.'' \<in> set b")
  case True
  let ?t = "takeWhile (\<lambda>c. c \<noteq> CHR ''.'') (rev b)"
  obtain pre where b: "b = pre @ CHR ''.'' # rev ?t"
    using split_at_last [OF True] by blast
  have len: "length b = length pre + 1 + length ?t"
    using arg_cong [OF b, of length] by simp
  have dot: "lastIndexDot b = int (length pre)"
    using True len by (simp add: lastIndexDot_def lastIndexFrom_eq)
  have "drop (length pre) b = CHR ''.'' # rev ?t"
    by (subst b) simp
  moreover have "take (length pre) b = pre"
    by (subst b) simp
  moreover have "length b - length (CHR ''.'' # rev ?t) = length pre"
    using len by simp
  ultimately show ?thesis
    using True c dot by (simp add: dupName_def suffixedName_def Let_def fmtD_def)
next
  case False
  then show ?thesis
    using c by (simp add: dupName_def suffixedName_def lastIndexDot_def lastIndexFrom_eq fmtD_def)
qed


lemma count_take_Suc:
  "count_list (take (Suc j) (a # ys)) b = count_list (take j ys) b + (if a = b then 1 else 0)"
  by simp

lemma length_mapTargetsFrom: "length (mapTargetsFrom p d xs) = length xs"
  by (induction xs arbitrary: d) (auto simp: Let_def split: prod.splits)

lemma mapTargetsFrom_nth:
  "i < length xs \<Longrightarrow>
   mapTargetsFrom p d xs ! i =
     (let b = candidates p xs ! i; k = count_list (take i (candidates p xs)) b
      in case d b of
           None \<Rightarrow> (if k = 0 then b else dupName b (int k))
         | Some c \<Rightarrow> dupName b (c + int k))"
proof (induction xs arbitrary: d i)
  case Nil
  then show ?case by simp
next
  case (Cons x xs)
  obtain z n where x: "x = (z, n)"
    by (cases x)
  let ?cur = "targetBase p z n"
  let ?d' = "snd (mapTargetName p z n d)"
  have step: "mapTargetsFrom p d (x # xs) = fst (mapTargetName p z n d) # mapTargetsFrom p ?d' xs"
    by (simp add: x split: prod.splits)
  show ?case
  proof (cases i)
    case 0
    then show ?thesis
      by (simp add: step candidates_def x mapTargetName_def Let_def split: option.splits)
  next
    case (Suc j)
    then have j: "j < length xs"
      using Cons.prems by simp
    let ?b = "candidates p xs ! j"
    let ?k = "count_list (take j (candidates p xs)) ?b"
    have ih: "mapTargetsFrom p ?d' xs ! j =
        (case ?d' ?b of None \<Rightarrow> (if ?k = 0 then ?b else dupName ?b (int ?k))
         | Some c \<Rightarrow> dupName ?b (c + int ?k))"
      using Cons.IH [OF j, of ?d'] by (simp add: Let_def)
    have cand: "candidates p (x # xs) ! i = ?b"
      by (simp add: Suc candidates_def)
    have "candidates p (x # xs) = ?cur # candidates p xs"
      by (simp add: candidates_def x)
    then have cnt: "count_list (take i (candidates p (x # xs))) ?b = ?k + (if ?cur = ?b then 1 else 0)"
      unfolding Suc by (simp only: count_take_Suc)
    have d': "?d' = d(?cur \<mapsto> (case d ?cur of None \<Rightarrow> 1 | Some c \<Rightarrow> c + 1))"
      by (simp add: mapTargetName_def Let_def split: option.splits)
    have lhs: "mapTargetsFrom p d (x # xs) ! i = mapTargetsFrom p ?d' xs ! j"
      using step Suc by simp
    show ?thesis
    proof (cases "?cur = ?b")
      case True
      have "?d' ?b = Some (case d ?b of None \<Rightarrow> 1 | Some c \<Rightarrow> c + 1)"
        by (subst d') (simp add: True)
      then show ?thesis
        unfolding lhs ih Let_def cand cnt
        using True by (cases "d ?b") (simp_all add: add.assoc)
    next
      case False
      have "?d' ?b = d ?b"
        using False by (subst d') auto
      then show ?thesis
        unfolding lhs ih Let_def cand cnt
        using False by (cases "d ?b") simp_all
    qed
  qed
qed

lemma dedupFrom_lookup:
  "dedupFrom p d xs b =
     (let k = count_list (candidates p xs) b
      in if k = 0 then d b else Some ((case d b of None \<Rightarrow> 0 | Some c \<Rightarrow> c) + int k))"
proof (induction xs arbitrary: d)
  case Nil
  then show ?case by (simp add: candidates_def)
next
  case (Cons x xs)
  obtain z n where x: "x = (z, n)"
    by (cases x)
  have d': "snd (mapTargetName p z n d) =
      d(targetBase p z n \<mapsto> (case d (targetBase p z n) of None \<Rightarrow> 1 | Some c \<Rightarrow> c + 1))"
    by (simp add: mapTargetName_def Let_def split: option.splits)
  show ?case
    unfolding x dedupFrom.simps Cons.IH d'
    by (auto simp: candidates_def Let_def split: option.splits)
qed

text \<open>
  C2: the first occurrence of a candidate is returned unchanged and leaves the counter 1 in
  the table; every later occurrence is returned with \<^verbatim>\<open>__dup<N>\<close> in front of the last dot (at
  the end when the candidate has no dot), where \<open>N\<close> is the number of earlier occurrences,
  so 1 for the first repetition and one more each time; the table holds for each candidate
  the number of its occurrences so far.
\<close>

theorem dedup_numbering:
  assumes "i < length xs"
  shows "mapTargets p xs ! i =
           (let b = candidates p xs ! i; k = count_list (take i (candidates p xs)) b
            in if k = 0 then b else suffixedName b k)
         \<and> dedupFrom p Map.empty xs b =
           (let n = count_list (candidates p xs) b in if n = 0 then None else Some (int n))"
proof -
  let ?b = "candidates p xs ! i"
  let ?k = "count_list (take i (candidates p xs)) ?b"
  have "mapTargets p xs ! i = (if ?k = 0 then ?b else dupName ?b (int ?k))"
    using mapTargetsFrom_nth [OF assms, of p Map.empty] by (simp add: mapTargets_def Let_def)
  moreover have "dupName ?b (int ?k) = suffixedName ?b ?k"
    using dupName_suffixedName [of "int ?k" ?b] by simp
  ultimately show ?thesis
    by (simp add: dedupFrom_lookup Let_def)
qed

lemma suffixedName_a: "suffixedName ''a.txt'' (Suc 0) = ''a__dup1.txt''"
  by (simp add: suffixedName_def Let_def)

theorem dedup_numbering_witness:
  "(1::nat) < length [(''x.zip'', ''a.txt''), (''y.zip'', ''a.txt'')]
   \<and> mapTargets False [(''x.zip'', ''a.txt''), (''y.zip'', ''a.txt'')] ! 1 = ''a__dup1.txt''
   \<and> dedupFrom False Map.empty [(''x.zip'', ''a.txt''), (''y.zip'', ''a.txt'')] ''a.txt'' = Some 2"
  using dedup_numbering [of 1 "[(''x.zip'', ''a.txt''), (''y.zip'', ''a.txt'')]" False "''a.txt''"]
  by (simp add: candidates_def targetBase_def trimLeftSeps_def toSlash_def suffixedName_a Let_def)

section \<open>The targets of a job\<close>

text \<open>
  A job that succeeds draws its targets as \<open>mapTargets\<close> does, from one table, for the
  entries of its archives that are neither directories nor skipped, in processing order.
\<close>

lemma drawnTargets_append: "drawnTargets (xs @ ys) = drawnTargets xs @ drawnTargets ys"
  by (induction xs rule: drawnTargets.induct) simp_all

lemma mapTargetsFrom_append:
  "mapTargetsFrom p d (xs @ ys) = mapTargetsFrom p d xs @ mapTargetsFrom p (dedupFrom p d xs) ys"
  by (induction xs arbitrary: d) (auto simp: Let_def split: prod.splits)

lemma dedupFrom_append: "dedupFrom p d (xs @ ys) = dedupFrom p (dedupFrom p d xs) ys"
  by (induction xs arbitrary: d) auto

lemma drawsInv_trans:
  "drawsInv p xs st st1 \<Longrightarrow> drawsInv p ys st1 st2 \<Longrightarrow> drawsInv p (xs @ ys) st st2"
  by (auto simp: drawsInv_def drawnTargets_append mapTargetsFrom_append dedupFrom_append)

lemma printZipProgress_draws: "drawsInv p [] st (printZipProgress prefix dn tot ad at st)"
  by (simp add: drawsInv_def printZipProgress_def Let_def)

lemma closingFlush_draws: "drawsInv p [] st (closingFlush fail b st)"
  by (simp add: drawsInv_def closingFlush_def)

lemma copyLoop_draws:
  "copyLoop prefix tz ot name inner fail b cs st = (res, st') \<Longrightarrow> drawsInv p [] st st'"
proof (induction cs arbitrary: st b)
  case Nil
  then show ?case using closingFlush_draws [of p st fail b] by auto
next
  case (Cons c cs)
  show ?case
  proof (cases "if cn c > 0 then bwWrite fail b (cn c) else Some b")
    case None
    then show ?thesis
      using Cons.prems by (auto simp: drawsInv_def)
  next
    case (Some b1)
    define st1 where "st1 =
          (if cn c > 0
           then let dz = u64 (doneZip st + cn c); od = u64 (overallDone st + cn c)
                in printZipProgress prefix dz tz od ot
                     (st\<lparr>overallDone := od, doneZip := dz,
                         trace := trace st @ [WriteChunk (cn c)]\<rparr>)
           else st)"
    have step: "copyLoop prefix tz ot name inner fail b (c # cs) st =
        (case cerr c of
           NoErr \<Rightarrow> copyLoop prefix tz ot name inner fail b1 cs st1
         | EOF \<Rightarrow> (None, closingFlush fail b1 st1)
         | ReadFail \<Rightarrow> (None, closingFlush fail b1 (st1\<lparr>trace := trace st1 @ [WarnRead inner name]\<rparr>)))"
      using Some by (cases "cerr c") (auto simp: st1_def Let_def)
    have d1: "drawsInv p [] st st1"
    proof (cases "cn c > 0")
      case True
      let ?st2 = "st\<lparr>overallDone := u64 (overallDone st + cn c), doneZip := u64 (doneZip st + cn c),
                         trace := trace st @ [WriteChunk (cn c)]\<rparr>"
      have "drawsInv p [] st ?st2"
        by (simp add: drawsInv_def)
      moreover have "drawsInv p [] ?st2 st1"
        using True printZipProgress_draws [of p ?st2] by (simp add: st1_def Let_def)
      ultimately show ?thesis
        using drawsInv_trans [of p "[]" st ?st2 "[]" st1] by simp
    next
      case False
      then show ?thesis by (simp add: st1_def drawsInv_def)
    qed
    show ?thesis
    proof (cases "cerr c")
      case NoErr
      then have "copyLoop prefix tz ot name inner fail b1 cs st1 = (res, st')"
        using step Cons.prems by simp
      then have "drawsInv p [] st1 st'"
        by (rule Cons.IH)
      then show ?thesis
        using d1 drawsInv_trans [of p "[]" st st1 "[]" st'] by simp
    next
      case EOF
      then have "st' = closingFlush fail b1 st1"
        using step Cons.prems by simp
      then have "drawsInv p [] st1 st'"
        using closingFlush_draws by simp
      then show ?thesis
        using d1 drawsInv_trans [of p "[]" st st1 "[]" st'] by simp
    next
      case ReadFail
      then have "drawsInv p [] st1 st'"
        using step Cons.prems by (auto simp: drawsInv_def closingFlush_def)
      then show ?thesis
        using d1 drawsInv_trans [of p "[]" st st1 "[]" st'] by simp
    qed
  qed
qed

lemma mergeEntry_draws:
  assumes "mergeEntry opt prefix tz ot name f st = (res, st')"
  shows "drawsInv (prefixByZip opt) (keptInputs name [f]) st st'"
proof -
  obtain target dedup' where t: "mapTargetName (prefixByZip opt) name (fname f) (dedup st) = (target, dedup')"
    by (cases "mapTargetName (prefixByZip opt) name (fname f) (dedup st)")
  show ?thesis
  proof (cases "fisDir f \<or> shouldSkipPath (fname f)")
    case True
    then show ?thesis
      using assms by (auto simp: mergeEntry_def keptInputs_def drawsInv_def split: if_splits)
  next
    case keep: False
    then have kept: "keptInputs name [f] = [(name, fname f)]"
      by (simp add: keptInputs_def)
    show ?thesis
    proof (cases "fhdrFails f \<or> fopenFails f")
      case True
      then show ?thesis
        using assms t keep
        by (auto simp: mergeEntry_def kept drawsInv_def Let_def toSlash_def split: if_splits)
    next
      case False
      let ?st2 = "st\<lparr>dedup := dedup', trace := trace st @
                          [Header name (fname f) (toSlash target) (\<not> store opt) (fusize f)]\<rparr>"
      have "copyLoop prefix tz ot name (fname f) (fwfail f) newWriter (fchunks f) ?st2 = (res, st')"
        using assms t keep False by (simp add: mergeEntry_def Let_def)
      then have "drawsInv (prefixByZip opt) [] ?st2 st'"
        by (rule copyLoop_draws)
      moreover have "drawsInv (prefixByZip opt) [(name, fname f)] st ?st2"
        using t by (simp add: drawsInv_def toSlash_def)
      ultimately show ?thesis
        using drawsInv_trans [of "prefixByZip opt" "[(name, fname f)]" st ?st2 "[]" st'] kept by simp
    qed
  qed
qed

lemma keptInputs_Cons: "keptInputs name (f # fs) = keptInputs name [f] @ keptInputs name fs"
  by (simp add: keptInputs_def)

lemma mergeEntries_draws:
  "mergeEntries opt prefix tz ot name fs st = (None, st') \<Longrightarrow>
   drawsInv (prefixByZip opt) (keptInputs name fs) st st'"
proof (induction fs arbitrary: st)
  case Nil
  then show ?case by (simp add: drawsInv_def keptInputs_def)
next
  case (Cons f fs)
  obtain r1 st1 where m: "mergeEntry opt prefix tz ot name f st = (r1, st1)"
    by (cases "mergeEntry opt prefix tz ot name f st")
  then have r1: "r1 = None" and run: "mergeEntries opt prefix tz ot name fs st1 = (None, st')"
    using Cons.prems by (cases r1; simp)+
  have "drawsInv (prefixByZip opt) (keptInputs name [f]) st st1"
    using m by (rule mergeEntry_draws)
  moreover have "drawsInv (prefixByZip opt) (keptInputs name fs) st1 st'"
    using run by (rule Cons.IH)
  ultimately show ?case
    using drawsInv_trans keptInputs_Cons [of name f fs] by metis
qed

lemma mergeArchive_draws:
  assumes "mergeArchive opt e ot n idx name st = (None, st')"
  shows "drawsInv (prefixByZip opt) (case zips e name of None \<Rightarrow> [] | Some fs \<Rightarrow> keptInputs name fs) st st'"
proof (cases "zips e name")
  case None
  then show ?thesis
    using assms by (auto simp: mergeArchive_def drawsInv_def)
next
  case (Some fs)
  let ?st0 = "st\<lparr>doneZip := 0, lastZipPct := - 1, lastAllPct := - 1\<rparr>"
  obtain r1 st1 where m: "mergeEntries opt (progressPrefix idx n name) (zipTotal e name) ot name fs ?st0 = (r1, st1)"
    by (cases "mergeEntries opt (progressPrefix idx n name) (zipTotal e name) ot name fs ?st0")
  then have r1: "r1 = None"
    using assms Some by (cases r1) (auto simp: mergeArchive_def Let_def)
  let ?st2 = "printZipProgress (progressPrefix idx n name) (zipTotal e name) (zipTotal e name)
                (overallDone st1) ot st1"
  have st': "st' = ?st2\<lparr>trace := trace ?st2 @ [Newline]\<rparr>"
    using assms Some m r1 by (auto simp: mergeArchive_def Let_def)
  have "drawsInv (prefixByZip opt) (keptInputs name fs) ?st0 st1"
    using m r1 mergeEntries_draws by blast
  then have a: "drawsInv (prefixByZip opt) (keptInputs name fs) st st1"
    by (simp add: drawsInv_def)
  have "drawsInv (prefixByZip opt) [] st1 ?st2"
    by (rule printZipProgress_draws)
  then have b: "drawsInv (prefixByZip opt) [] st1 st'"
    by (auto simp: drawsInv_def st' drawnTargets_append)
  show ?thesis
    using drawsInv_trans [OF a b] Some by simp
qed

lemma mergeArchives_draws:
  "mergeArchives opt e ot n idx names st = (None, st') \<Longrightarrow>
   drawsInv (prefixByZip opt) (mergedInputs e names) st st'"
proof (induction names arbitrary: st idx)
  case Nil
  then show ?case by (simp add: drawsInv_def mergedInputs_def)
next
  case (Cons name names)
  obtain r1 st1 where m: "mergeArchive opt e ot n idx name st = (r1, st1)"
    by (cases "mergeArchive opt e ot n idx name st")
  then have r1: "r1 = None" and run: "mergeArchives opt e ot n (idx + 1) names st1 = (None, st')"
    using Cons.prems by (cases r1; simp)+
  have a: "drawsInv (prefixByZip opt) (case zips e name of None \<Rightarrow> [] | Some fs \<Rightarrow> keptInputs name fs) st st1"
    using m r1 mergeArchive_draws by blast
  have b: "drawsInv (prefixByZip opt) (mergedInputs e names) st1 st'"
    using run by (rule Cons.IH)
  have "mergedInputs e (name # names) =
      (case zips e name of None \<Rightarrow> [] | Some fs \<Rightarrow> keptInputs name fs) @ mergedInputs e names"
    by (simp add: mergedInputs_def)
  then show ?case
    using drawsInv_trans [OF a b] by simp
qed

lemma scanWarnings_draws: "drawnTargets (scanWarnings e names) = []"
  by (induction names) (auto split: option.splits)

lemma job_targets:
  assumes "mergeZIP opt e = (Inr p, tr)" and "listZipFiles e = Some names"
  shows "drawnTargets tr = mapTargets (prefixByZip opt) (mergedInputs e names)"
proof -
  define T where "T = overallTotalFrom e 0 names"
  define tr1 where "tr1 = scanWarnings e names"
  define need where "need = diskNeed (f2uImpl e) (store opt) T (overallCompressedFrom e 0 names)"
  define outPath where "outPath = filepathJoin (outDir opt) (outBase opt @ ''.zip'')"
  let ?init = "initState (tr1 @ [CreateOutput outPath])"
  obtain res st where loop: "mergeArchives opt e T (length names) 0 names ?init = (res, st)"
    by (cases "mergeArchives opt e T (length names) 0 names ?init")
  have go: "\<not> mkdirFails e" "length names \<noteq> 0" "\<not> spaceRejected (freeBytes (statfs e)) need" "\<not> createFails e"
    using assms unfolding need_def T_def
    by (auto simp: mergeZIP_def Let_def split: if_splits)
  have eq: "mergeZIP opt e =
      (case res of
         Some err \<Rightarrow> (Inl err, trace st)
       | None \<Rightarrow> if zwCloseFails e then (Inl CloseErr, trace st)
                 else if outCloseFails e then (Inl CloseErr, trace st)
                 else (Inr outPath, trace st @ [Finished outPath]))"
    using go assms(2) loop unfolding T_def tr1_def need_def outPath_def
    by (cases res) (simp_all add: mergeZIP_def Let_def)
  then have res: "res = None" and tr: "tr = trace st @ [Finished outPath]"
    using assms(1) by (cases res; simp split: if_splits)+
  have "drawsInv (prefixByZip opt) (mergedInputs e names) ?init st"
    using loop res mergeArchives_draws by blast
  then show ?thesis
    by (auto simp: drawsInv_def tr initState_def mapTargets_def drawnTargets_append
          tr1_def scanWarnings_draws)
qed

section \<open>Raw split: parts and reconstruction\<close>

lemma copyPart_ok:
  "copied \<le> ps \<Longrightarrow>
   copyPart False False ps copied inp out written =
     (None, drop (ps - copied) inp, out @ take (ps - copied) inp,
      written + min (ps - copied) (length inp))"
proof (induction "ps - copied" arbitrary: copied inp out written rule: less_induct)
  case less
  show ?case
  proof (cases "copied < ps")
    case False
    then show ?thesis
      using less.prems by (subst copyPart.simps) simp
  next
    case True
    show ?thesis
    proof (cases "inp = []")
      case True
      then show ?thesis
        using \<open>copied < ps\<close> by (subst copyPart.simps) (simp add: Let_def)
    next
      case False
      define n where "n = min (min bufLen (ps - copied)) (length inp)"
      have npos: "0 < n"
        using False True by (simp add: n_def bufLen_def)
      have nle: "n \<le> ps - copied" "n \<le> length inp"
        by (simp_all add: n_def)
      have step: "copyPart False False ps copied inp out written =
                  copyPart False False ps (copied + n) (drop n inp) (out @ take n inp) (written + n)"
        using True False npos by (subst copyPart.simps) (simp add: Let_def n_def)
      have rec: "copyPart False False ps (copied + n) (drop n inp) (out @ take n inp) (written + n) =
          (None, drop (ps - (copied + n)) (drop n inp),
           (out @ take n inp) @ take (ps - (copied + n)) (drop n inp),
           (written + n) + min (ps - (copied + n)) (length (drop n inp)))"
        using less.hyps [of "copied + n"] npos nle True by simp
      have a: "drop (ps - (copied + n)) (drop n inp) = drop (ps - copied) inp"
        using nle \<open>copied < ps\<close> by simp
      have b: "take n inp @ take (ps - (copied + n)) (drop n inp) = take (ps - copied) inp"
        using nle \<open>copied < ps\<close> take_add [of n "ps - (copied + n)" inp] by simp
      have c: "n + min (ps - (copied + n)) (length (drop n inp)) = min (ps - copied) (length inp)"
        using nle \<open>copied < ps\<close> by (auto simp: min_def)
      show ?thesis
        unfolding step rec a using b c by simp
    qed
  qed
qed

lemma splitLoop_ok:
  assumes "\<forall>q. \<not> dCreateFails d q" "\<forall>q. \<not> dWriteFails d q" "\<not> dReadFails d path" "0 < ps"
  shows "inp \<noteq> [] \<Longrightarrow> written + length inp = tot \<Longrightarrow>
     splitLoop d path ps tot idx inp written =
       Some (None, d\<lparr>sfiles := storeParts (sfiles d) path idx (partsOf ps inp)\<rparr>)"
  using assms
proof (induction "length inp" arbitrary: d idx inp written rule: less_induct)
  case less
  let ?d' = "d\<lparr>sfiles := (sfiles d)(partName path idx \<mapsto> take ps inp)\<rparr>"
  have cp: "copyPart (dReadFails d path) (dWriteFails d (partName path idx)) ps 0 inp [] written =
      (None, drop ps inp, take ps inp, written + min ps (length inp))"
    using copyPart_ok [of 0 ps inp "[]" written] less.prems by simp
  have parts: "partsOf ps inp = take ps inp # partsOf ps (drop ps inp)"
    using less.prems by (subst partsOf.simps) simp
  show ?case
  proof (cases "drop ps inp = []")
    case True
    then have "length inp \<le> ps"
      by simp
    then have "tot \<le> written + min ps (length inp)"
      using less.prems by simp
    moreover have "partsOf ps (drop ps inp) = []"
      using True by (subst partsOf.simps) simp
    ultimately show ?thesis
      using less.prems cp parts by (subst splitLoop.simps) simp
  next
    case False
    then have lt: "ps < length inp"
      by simp
    then have notyet: "\<not> tot \<le> written + min ps (length inp)"
      using less.prems by simp
    have "splitLoop ?d' path ps tot (idx + 1) (drop ps inp) (written + ps) =
        Some (None, ?d'\<lparr>sfiles := storeParts (sfiles ?d') path (idx + 1) (partsOf ps (drop ps inp))\<rparr>)"
      using less.hyps [of "drop ps inp" "written + ps" ?d' "idx + 1"] less.prems False lt by simp
    then show ?thesis
      using less.prems cp parts notyet lt by (subst splitLoop.simps) (simp add: min_def)
  qed
qed


lemma concat_partsOf: "0 < ps \<Longrightarrow> concat (partsOf ps xs) = xs"
proof (induction ps xs rule: partsOf.induct)
  case (1 ps xs)
  then show ?case
    by (subst partsOf.simps) auto
qed

lemma partsOf_sizes:
  "0 < ps \<Longrightarrow> i < length (partsOf ps xs) \<Longrightarrow>
   0 < length (partsOf ps xs ! i) \<and> length (partsOf ps xs ! i) \<le> ps
   \<and> (i + 1 < length (partsOf ps xs) \<longrightarrow> length (partsOf ps xs ! i) = ps)"
proof (induction ps xs arbitrary: i rule: partsOf.induct)
  case (1 ps xs)
  have ne: "xs \<noteq> []"
    using "1.prems" by (subst (asm) partsOf.simps) auto
  have unf: "partsOf ps xs = take ps xs # partsOf ps (drop ps xs)"
    using ne "1.prems" by (subst partsOf.simps) simp
  show ?case
  proof (cases i)
    case 0
    have "length (partsOf ps (drop ps xs)) > 0 \<Longrightarrow> ps \<le> length xs"
    proof -
      assume "length (partsOf ps (drop ps xs)) > 0"
      then have "drop ps xs \<noteq> []"
        by (subst (asm) partsOf.simps) auto
      then show ?thesis by simp
    qed
    then show ?thesis
      using 0 ne "1.prems" unf by (auto simp: min_def)
  next
    case (Suc j)
    then have "j < length (partsOf ps (drop ps xs))"
      using "1.prems" unf by simp
    then show ?thesis
      using "1.IH" [of j] ne "1.prems" Suc unf by simp
  qed
qed

lemma digitChar_code: "n < 10 \<Longrightarrow> int (of_char (digitChar n)) - 48 = int n"
proof -
  assume "n < 10"
  then consider "n = 0" | "n = 1" | "n = 2" | "n = 3" | "n = 4" | "n = 5" | "n = 6" | "n = 7"
    | "n = 8" | "n = 9"
    by (auto simp: eval_nat_numeral less_Suc_eq)
  then show ?thesis
    by cases (simp_all add: digitChar_def)
qed

lemma digitsValue_snoc: "digitsValue (ds @ [c]) = 10 * digitsValue ds + (int (of_char c) - 48)"
  by (simp add: digitsValue_def)

lemma digitsValue_decimal: "digitsValue (decimal n) = int n"
proof (induction n rule: decimal.induct)
  case (1 n)
  show ?case
  proof (cases "n < 10")
    case True
    then show ?thesis
      by (subst decimal.simps) (simp add: digitsValue_def digitChar_code)
  next
    case False
    then have "digitsValue (decimal n) = 10 * int (n div 10) + int (n mod 10)"
      using 1 by (subst decimal.simps) (simp add: digitsValue_snoc digitChar_code)
    then show ?thesis
      by (simp add: zdiv_int zmod_int)
  qed
qed

lemma digitsValue_zeros: "digitsValue (replicate k (CHR ''0'') @ ds) = digitsValue ds"
proof -
  have "foldl (\<lambda>a c. 10 * a + (int (of_char c) - 48)) 0 (replicate k (CHR ''0'')) = 0"
    by (induction k) simp_all
  then show ?thesis
    by (simp add: digitsValue_def)
qed

lemma pad3_value: "digitsValue (pad3 n) = int n"
  by (simp add: pad3_def digitsValue_zeros digitsValue_decimal)

lemma partName_inj: "partName path i = partName path j \<Longrightarrow> i = j"
proof -
  assume "partName path i = partName path j"
  then have "pad3 i = pad3 j"
    by (simp add: partName_def)
  then have "digitsValue (pad3 i) = digitsValue (pad3 j)"
    by simp
  then show ?thesis
    by (simp add: pad3_value)
qed

lemma partName_not_path: "partName path i \<noteq> path"
proof
  assume "partName path i = path"
  then have "length (partName path i) = length path"
    by simp
  then show False
    by (simp add: partName_def)
qed

lemma storeParts_other:
  "(\<forall>i<length cs. q \<noteq> partName path (idx + i)) \<Longrightarrow> storeParts m path idx cs q = m q"
proof (induction cs arbitrary: m idx)
  case Nil
  then show ?case by simp
next
  case (Cons c cs)
  have "\<forall>i<length cs. q \<noteq> partName path (idx + 1 + i)"
    using Cons.prems by auto
  moreover have "q \<noteq> partName path idx"
    using Cons.prems by force
  ultimately show ?case
    using Cons.IH [where idx = "idx + 1"] by simp
qed

lemma storeParts_nth:
  "i < length cs \<Longrightarrow> storeParts m path idx cs (partName path (idx + i)) = Some (cs ! i)"
proof (induction cs arbitrary: m idx i)
  case Nil
  then show ?case by simp
next
  case (Cons c cs)
  show ?case
  proof (cases i)
    case 0
    have "\<forall>k<length cs. partName path idx \<noteq> partName path (idx + 1 + k)"
      using partName_inj by fastforce
    then show ?thesis
      using 0 storeParts_other [of cs "partName path idx" path "idx + 1"] by simp
  next
    case (Suc j)
    then show ?thesis
      using Cons.IH [where i = j and idx = "idx + 1"] Cons.prems by simp
  qed
qed


lemma replicate_two: "replicate 2 x = [x, x]"
  by (simp add: numeral_2_eq_2)

lemmas size_defs =
  parseSize_def matchSize_def trimSpace_def asciiSpaces_def wideSpaces_def trimLeftRunes.simps
  hasPrefix_def isRegexSpace_def isDigit_def unitOf_def digitsValue_def parseInt64_def wrap64_def

lemma parseSize_4m: "parseSize ''4m'' = Inr 4194304"
  by (simp add: size_defs)

text \<open>
  C8: for a non-empty file and a positive part size, when no call on the disk fails, raw
  splitting returns success; the parts are stored under the names \<^verbatim>\<open><path>.part-NNN\<close> with
  the index \<^verbatim>\<open>NNN\<close> written by \<^verbatim>\<open>%03d\<close>, starting at \<^verbatim>\<open>000\<close>; no part is empty, none is longer than
  the part size, and every part but the last has exactly the part size; the parts joined in
  the order of their index are the original file; nothing else on the disk changes, except
  that the original is removed when this was asked for. For a file of 10 MiB and the size
  \<^verbatim>\<open>4m\<close> these are three parts of 4, 4 and 2 MiB.
\<close>

theorem raw_split_parts:
  assumes "parseSize s = Inr ps" and "0 < ps"
    and "sfiles d path = Some xs" and "xs \<noteq> []"
    and "\<not> dOpenFails d path" and "\<not> dStatFails d path" and "\<not> dReadFails d path"
    and "\<forall>q. \<not> dCreateFails d q" and "\<forall>q. \<not> dWriteFails d q" and "\<not> dRemoveFails d path"
  shows "\<exists>d'. rawSplit d path s rm = Some (None, d')
     \<and> (\<forall>i<length (partsOf (nat ps) xs).
           sfiles d' (partName path i) = Some (partsOf (nat ps) xs ! i)
           \<and> 0 < length (partsOf (nat ps) xs ! i)
           \<and> length (partsOf (nat ps) xs ! i) \<le> nat ps
           \<and> (i + 1 < length (partsOf (nat ps) xs) \<longrightarrow> length (partsOf (nat ps) xs ! i) = nat ps))
     \<and> concat (map (\<lambda>i. the (sfiles d' (partName path i))) [0 ..< length (partsOf (nat ps) xs)]) = xs
     \<and> (\<forall>q. q \<noteq> path \<and> (\<forall>i<length (partsOf (nat ps) xs). q \<noteq> partName path i)
            \<longrightarrow> sfiles d' q = sfiles d q)
     \<and> sfiles d' path = (if rm then None else Some xs)
     \<and> partName path 0 = path @ ''.part-000''"
proof -
  let ?ps = "nat ps"
  let ?parts = "partsOf ?ps xs"
  let ?m = "storeParts (sfiles d) path 0 ?parts"
  let ?d1 = "d\<lparr>sfiles := ?m\<rparr>"
  let ?d' = "if rm then ?d1\<lparr>sfiles := ?m(path := None)\<rparr> else ?d1"
  have pos: "0 < ?ps"
    using assms(2) by simp
  have loop: "splitLoop d path ?ps (length xs) 0 xs 0 = Some (None, ?d1)"
    using splitLoop_ok [of d path ?ps xs 0 "length xs" 0] assms pos by simp
  have res: "rawSplit d path s rm = Some (None, ?d')"
    using assms loop by (simp add: rawSplit_def)
  have stored: "\<And>i. i < length ?parts \<Longrightarrow> ?m (partName path i) = Some (?parts ! i)"
    using storeParts_nth [of _ ?parts "sfiles d" path 0] by simp
  have other: "\<And>q. \<forall>i<length ?parts. q \<noteq> partName path i \<Longrightarrow> ?m q = sfiles d q"
    using storeParts_other [of ?parts _ path 0 "sfiles d"] by simp
  have orig: "?m path = Some xs"
    using other [of path] partName_not_path [of path] assms(3) by metis
  have files: "\<And>i. i < length ?parts \<Longrightarrow> sfiles ?d' (partName path i) = Some (?parts ! i)"
    using stored partName_not_path by simp
  have "map (\<lambda>i. the (sfiles ?d' (partName path i))) [0 ..< length ?parts] = map (\<lambda>i. ?parts ! i) [0 ..< length ?parts]"
    using files by simp
  then have cat: "concat (map (\<lambda>i. the (sfiles ?d' (partName path i))) [0 ..< length ?parts]) = xs"
    using concat_partsOf [OF pos, of xs] by (simp add: map_nth)
  have rest: "\<forall>q. q \<noteq> path \<and> (\<forall>i<length ?parts. q \<noteq> partName path i) \<longrightarrow> sfiles ?d' q = sfiles d q"
    using other by simp
  have self: "sfiles ?d' path = (if rm then None else Some xs)"
    using orig by simp
  have name0: "partName path 0 = path @ ''.part-000''"
    by (simp add: partName_def pad3_def replicate_two)
  show ?thesis
    using res files partsOf_sizes [OF pos, of _ xs] cat rest self name0 by blast
qed

theorem raw_split_parts_witness:
  "parseSize ''4m'' = Inr 4194304
   \<and> (\<exists>d'. rawSplit (quietDisk ''merged.zip'' (replicate 10485760 (CHR ''z''))) ''merged.zip'' ''4m'' False
            = Some (None, d')
        \<and> sfiles d' ''merged.zip.part-000'' = Some (replicate 4194304 (CHR ''z''))
        \<and> sfiles d' ''merged.zip.part-001'' = Some (replicate 4194304 (CHR ''z''))
        \<and> sfiles d' ''merged.zip.part-002'' = Some (replicate 2097152 (CHR ''z''))
        \<and> sfiles d' ''merged.zip.part-003'' = None
        \<and> sfiles d' ''merged.zip'' = Some (replicate 10485760 (CHR ''z'')))"
proof -
  let ?xs = "replicate 10485760 (CHR ''z'')"
  let ?d = "quietDisk ''merged.zip'' ?xs"
  have parts: "partsOf (nat 4194304) ?xs =
      [replicate 4194304 (CHR ''z''), replicate 4194304 (CHR ''z''), replicate 2097152 (CHR ''z'')]"
    by (simp add: partsOf.simps)
  have names: "partName ''merged.zip'' 0 = ''merged.zip.part-000''"
    "partName ''merged.zip'' 1 = ''merged.zip.part-001''"
    "partName ''merged.zip'' 2 = ''merged.zip.part-002''"
    "partName ''merged.zip'' 3 = ''merged.zip.part-003''"
    by (simp_all add: partName_def pad3_def digitChar_def replicate_two)
  obtain d' where d': "rawSplit ?d ''merged.zip'' ''4m'' False = Some (None, d')"
    and files: "\<forall>i<3. sfiles d' (partName ''merged.zip'' i) =
                 Some ([replicate 4194304 (CHR ''z''), replicate 4194304 (CHR ''z''), replicate 2097152 (CHR ''z'')] ! i)"
    and rest: "\<forall>q. q \<noteq> ''merged.zip'' \<and> (\<forall>i<3. q \<noteq> partName ''merged.zip'' i) \<longrightarrow> sfiles d' q = sfiles ?d q"
    and self: "sfiles d' ''merged.zip'' = Some ?xs"
    using raw_split_parts [of "''4m''" 4194304 ?d "''merged.zip''" ?xs False]
    unfolding parts by (auto simp: parseSize_4m quietDisk_def)
  have "sfiles d' (partName ''merged.zip'' 0) = Some (replicate 4194304 (CHR ''z''))"
    "sfiles d' (partName ''merged.zip'' 1) = Some (replicate 4194304 (CHR ''z''))"
    "sfiles d' (partName ''merged.zip'' 2) = Some (replicate 2097152 (CHR ''z''))"
    using files by simp_all
  moreover have "sfiles d' (partName ''merged.zip'' 3) = None"
  proof -
    have "\<forall>i<3. partName ''merged.zip'' 3 \<noteq> partName ''merged.zip'' i"
      using partName_inj by fastforce
    then have "sfiles d' (partName ''merged.zip'' 3) = sfiles ?d (partName ''merged.zip'' 3)"
      using rest partName_not_path by blast
    then show ?thesis
      by (simp add: names quietDisk_def)
  qed
  ultimately show ?thesis
    using d' self parseSize_4m unfolding names by blast
qed

text \<open>
  C10: when the file to split has no bytes, the part size is valid, and the file opens,
  \<^verbatim>\<open>rawSplit\<close> returns success and leaves the disk as it was: no part file is made, not even
  the one with index 000, and the original stays, also when its removal was asked for.
\<close>

theorem empty_file_not_split:
  assumes "parseSize s = Inr ps" and "0 < ps" and "sfiles d path = Some []"
    and "\<not> dOpenFails d path" and "\<not> dStatFails d path"
  shows "rawSplit d path s rm = Some (None, d)"
  using assms by (simp add: rawSplit_def)

theorem empty_file_not_split_witness:
  "parseSize ''4m'' = Inr 4194304 \<and> (0::int) < 4194304
   \<and> sfiles (quietDisk ''merged.zip'' ([] :: char list)) ''merged.zip'' = Some []
   \<and> rawSplit (quietDisk ''merged.zip'' ([] :: char list)) ''merged.zip'' ''4m'' True
       = Some (None, quietDisk ''merged.zip'' [])"
  using empty_file_not_split [of "''4m''" 4194304 "quietDisk ''merged.zip'' ([] :: char list)" "''merged.zip''" True]
  by (simp add: parseSize_4m quietDisk_def)

section \<open>The space estimate in float64\<close>

lemma bitLen_le: "n < 2 ^ k \<Longrightarrow> bitLen n \<le> k"
proof (induction k arbitrary: n)
  case 0
  then show ?case by (simp add: bitLen.simps)
next
  case (Suc k)
  show ?case
  proof (cases "n = 0")
    case True
    then show ?thesis by (simp add: bitLen.simps)
  next
    case False
    have "n div 2 < 2 ^ k"
      using Suc.prems by simp
    then have "bitLen (n div 2) \<le> k"
      by (rule Suc.IH)
    then show ?thesis
      using False by (subst bitLen.simps) simp
  qed
qed

lemma rne53_small: "n < 2 ^ 53 \<Longrightarrow> rne53 n = n"
  using bitLen_le [of n 53] by (simp add: rne53_def)

lemma rne53_cases:
  assumes "\<not> bitLen n \<le> 53"
  obtains s q where "s = bitLen n - 53" "q = n div 2 ^ s" "0 < s"
    "rne53 n = q * 2 ^ s \<or> (rne53 n = (q + 1) * 2 ^ s \<and> 2 ^ (s - 1) \<le> n mod 2 ^ s)"
proof -
  let ?s = "bitLen n - 53"
  let ?q = "n div 2 ^ ?s"
  have "0 < ?s"
    using assms by simp
  moreover have "rne53 n = ?q * 2 ^ ?s \<or> (rne53 n = (?q + 1) * 2 ^ ?s \<and> 2 ^ (?s - 1) \<le> n mod 2 ^ ?s)"
    using assms by (auto simp: rne53_def Let_def)
  ultimately show ?thesis
    using that by blast
qed

lemma rne53_upper:
  assumes "n < 2 ^ 101"
  shows "rne53 n \<le> n + 2 ^ 47"
proof (cases "bitLen n \<le> 53")
  case True
  then show ?thesis by (simp add: rne53_def)
next
  case False
  then obtain s q where s: "s = bitLen n - 53" and q: "q = n div 2 ^ s" and pos: "0 < s"
    and r: "rne53 n = q * 2 ^ s \<or> (rne53 n = (q + 1) * 2 ^ s \<and> 2 ^ (s - 1) \<le> n mod 2 ^ s)"
    by (rule rne53_cases)
  have "bitLen n \<le> 101"
    using assms by (rule bitLen_le)
  then have "s - 1 \<le> 47"
    using s by simp
  then have h: "(2::nat) ^ (s - 1) \<le> 2 ^ 47"
    by (intro power_increasing) simp_all
  have two: "(2::nat) ^ s = 2 * 2 ^ (s - 1)"
    using pos by (cases s) simp_all
  have n: "n = q * 2 ^ s + n mod 2 ^ s"
    unfolding q by (rule div_mult_mod_eq [symmetric])
  from r show ?thesis
  proof
    assume "rne53 n = q * 2 ^ s"
    then show ?thesis
      using n by linarith
  next
    assume up: "rne53 n = (q + 1) * 2 ^ s \<and> 2 ^ (s - 1) \<le> n mod 2 ^ s"
    then have "rne53 n = q * 2 ^ s + 2 * 2 ^ (s - 1)"
      using two by (simp add: algebra_simps)
    then have "rne53 n \<le> n + 2 ^ (s - 1)"
      using n up by linarith
    then show ?thesis
      using h by linarith
  qed
qed

lemma rne53_lower:
  assumes "n < 2 ^ 101" and "m * 2 ^ 52 \<le> n"
  shows "m * 2 ^ 52 \<le> rne53 n"
proof (cases "bitLen n \<le> 53")
  case True
  then show ?thesis using assms by (simp add: rne53_def)
next
  case False
  then obtain s q where s: "s = bitLen n - 53" and q: "q = n div 2 ^ s" and pos: "0 < s"
    and r: "rne53 n = q * 2 ^ s \<or> (rne53 n = (q + 1) * 2 ^ s \<and> 2 ^ (s - 1) \<le> n mod 2 ^ s)"
    by (rule rne53_cases)
  have "bitLen n \<le> 101"
    using assms(1) by (rule bitLen_le)
  then have sle: "s \<le> 52"
    using s by simp
  define P :: nat where "P = 2 ^ (52 - s)"
  define S :: nat where "S = 2 ^ s"
  have PS: "P * S = 2 ^ 52"
    using sle unfolding P_def S_def by (simp only: power_add [symmetric]) simp
  have "(m * P) * S \<le> n"
    using assms(2) PS by (simp only: mult.assoc)
  then have "m * P \<le> n div S"
    unfolding S_def by (simp add: less_eq_div_iff_mult_less_eq)
  then have "(m * P) * S \<le> q * S"
    unfolding q S_def by simp
  then have low: "m * 2 ^ 52 \<le> q * 2 ^ s"
    using PS unfolding S_def by (simp only: mult.assoc)
  from r show ?thesis
  proof
    assume "rne53 n = q * 2 ^ s"
    then show ?thesis using low by simp
  next
    assume "rne53 n = (q + 1) * 2 ^ s \<and> 2 ^ (s - 1) \<le> n mod 2 ^ s"
    then have "q * 2 ^ s \<le> rne53 n"
      by simp
    then show ?thesis using low by linarith
  qed
qed

lemma times_105:
  assumes "x < 2 ^ 48"
  shows "rne53 (x * 4728779608739021) div 2 ^ 52 = 21 * x div 20"
proof -
  define N where "N = 21 * x div 20"
  define n where "n = x * 4728779608739021"
  have x: "x < 281474976710656"
    using assms by simp
  have N1: "20 * N \<le> 21 * x" and N2: "21 * x < 20 * N + 20"
    unfolding N_def by (simp_all add: div_times_less_eq_dividend dividend_less_times_div mult.commute)
  have big: "n < 2 ^ 101"
    using x unfolding n_def by simp
  have "N * 2 ^ 52 \<le> n"
    using N1 unfolding n_def by simp
  then have lo: "N * 2 ^ 52 \<le> rne53 n"
    using big by (intro rne53_lower)
  have "n + 2 ^ 47 < (N + 1) * 2 ^ 52"
    using N2 x unfolding n_def by simp
  then have hi: "rne53 n < (N + 1) * 2 ^ 52"
    using rne53_upper [OF big] by linarith
  have "rne53 n div 2 ^ 52 = N"
    using lo hi by (intro div_nat_eqI) (simp_all add: mult.commute)
  then show ?thesis
    by (simp add: n_def N_def)
qed

lemma times_110:
  assumes "x < 2 ^ 48"
  shows "rne53 (x * 4953959590107546) div 2 ^ 52 = 11 * x div 10"
proof -
  define N where "N = 11 * x div 10"
  define n where "n = x * 4953959590107546"
  have x: "x < 281474976710656"
    using assms by simp
  have N1: "10 * N \<le> 11 * x" and N2: "11 * x < 10 * N + 10"
    unfolding N_def by (simp_all add: div_times_less_eq_dividend dividend_less_times_div mult.commute)
  have big: "n < 2 ^ 101"
    using x unfolding n_def by simp
  have "N * 2 ^ 52 \<le> n"
    using N1 unfolding n_def by simp
  then have lo: "N * 2 ^ 52 \<le> rne53 n"
    using big by (intro rne53_lower)
  have "n + 2 ^ 47 < (N + 1) * 2 ^ 52"
    using N2 x unfolding n_def by simp
  then have hi: "rne53 n < (N + 1) * 2 ^ 52"
    using rne53_upper [OF big] by linarith
  have "rne53 n div 2 ^ 52 = N"
    using lo hi by (intro div_nat_eqI) (simp_all add: mult.commute)
  then show ?thesis
    by (simp add: n_def N_def)
qed


text \<open>
  C4: the bytes required are the uncompressed total times 1.05 in store mode, and the
  smaller of the uncompressed total and the compressed total times 1.25, times 1.10, in
  deflate mode, each product cut to whole bytes as the conversion to \<^verbatim>\<open>uint64\<close> does. For
  totals below \<open>2^48\<close> bytes the float64 arithmetic of the source gives exactly these
  numbers. For 10 GiB in store mode the requirement is 10.5 GiB, a job with 10 GiB free is
  refused before anything is written, and a job with 11 GiB free runs.
\<close>

theorem disk_need_formula:
  assumes "overallTotal < 2 ^ 48" and "overallCompressed < 2 ^ 48"
  shows "diskNeed impl True overallTotal overallCompressed = 21 * overallTotal div 20
     \<and> diskNeed impl False overallTotal overallCompressed
         = 11 * min overallTotal (5 * overallCompressed div 4) div 10"
proof -
  have t: "overallTotal < 2 ^ 53" and c: "overallCompressed < 2 ^ 53"
    using assms by simp_all
  have "21 * overallTotal div 20 < 2 ^ 64"
    using assms(1) by simp
  then have store: "diskNeed impl True overallTotal overallCompressed = 21 * overallTotal div 20"
    using times_105 [OF assms(1)] rne53_small [OF t]
    by (simp add: diskNeed_def uint64OfFloat64_def f64Mul_def float64OfUint64_def c105_def)
  define cand where "cand = 5 * overallCompressed div 4"
  have "overallCompressed * 5 < 2 ^ 53"
    using assms(2) by simp
  then have five: "rne53 (overallCompressed * 5) = overallCompressed * 5"
    by (rule rne53_small)
  have "overallCompressed * 5 div 4 < 2 ^ 64"
    using assms(2) by simp
  then have candv: "uint64OfFloat64 impl (f64Mul (float64OfUint64 overallCompressed) c125) = cand"
    using rne53_small [OF c] five
    by (simp add: uint64OfFloat64_def f64Mul_def float64OfUint64_def c125_def cand_def mult.commute)
  define m where "m = min overallTotal cand"
  have m: "(if cand > overallTotal then overallTotal else cand) = m"
    by (simp add: m_def min_def)
  have m48: "m < 2 ^ 48"
    using assms(1) by (simp add: m_def)
  then have m53: "m < 2 ^ 53"
    by simp
  have "11 * m div 10 < 2 ^ 64"
    using m48 by simp
  then have "uint64OfFloat64 impl (f64Mul (float64OfUint64 m) c110) = 11 * m div 10"
    using times_110 [OF m48] rne53_small [OF m53]
    by (simp add: uint64OfFloat64_def f64Mul_def float64OfUint64_def c110_def)
  then have "diskNeed impl False overallTotal overallCompressed = 11 * m div 10"
    by (simp add: diskNeed_def candv m Let_def)
  then show ?thesis
    using store by (simp add: m_def cand_def)
qed

theorem disk_need_formula_witness:
  "(10 * 2 ^ 30 :: nat) < 2 ^ 48
   \<and> diskNeed 0 True (10 * 2 ^ 30) (10 * 2 ^ 30) = 21 * 2 ^ 29
   \<and> mergeZIP (defaultOptions\<lparr>store := True\<rparr>)
        ((quietEnv [''x.zip''] [(''x.zip'', [plainFile ''a.bin'' (10 * 2 ^ 30)])])
           \<lparr>statfs := Some (10 * 2 ^ 18, 4096)\<rparr>)
      = (Inl (NoSpace (21 * 2 ^ 29) (10 * 2 ^ 30)), [])
   \<and> fst (mergeZIP (defaultOptions\<lparr>store := True\<rparr>)
        ((quietEnv [''x.zip''] [(''x.zip'', [plainFile ''a.bin'' (10 * 2 ^ 30)])])
           \<lparr>statfs := Some (11 * 2 ^ 18, 4096)\<rparr>))
      = Inr ''abcxyz_output/merged.zip''"
proof -
  have need: "diskNeed 0 True 10737418240 10737418240 = 11274289152"
    using disk_need_formula [of 10737418240 10737418240 0] by simp
  show ?thesis
    by (simp add: need job_defs name_defs freeBytes_def spaceRejected_def u64_def Let_def
          cong: let_weak_cong)
qed

section \<open>The space check and the catalog on examples\<close>

text \<open>
  C5, as stated: a job whose free space is measured and is less than the bytes needed is
  rejected before the output file is created. On a full disk it is not: \<^verbatim>\<open>Statfs\<close> succeeds and reports
  no available block, \<^verbatim>\<open>freeBytes\<close> is 0 and \<^verbatim>\<open>need\<close> is 105, yet the output file is created,
  the entry is written and the job returns the output path.
\<close>

theorem full_disk_not_rejected:
  "freeBytes (Some (0, 4096)) = 0
   \<and> diskNeed 0 True 100 100 = 105
   \<and> mergeZIP (defaultOptions\<lparr>store := True\<rparr>)
        ((quietEnv [''x.zip''] [(''x.zip'', [plainFile ''a.txt'' 100])])\<lparr>statfs := Some (0, 4096)\<rparr>)
      = (Inr ''abcxyz_output/merged.zip'',
         [CreateOutput ''abcxyz_output/merged.zip'',
          Header ''x.zip'' ''a.txt'' ''a.txt'' False 100,
          WriteChunk 100,
          Render ''[1/1] x.zip'' 100 100 100 100 100 100,
          Newline,
          Finished ''abcxyz_output/merged.zip''])"
proof -
  have "freeBytes (Some (0, 4096)) = 0"
    by (simp add: need_defs)
  moreover have "diskNeed 0 True 100 100 = 105"
    by (simp add: need_defs Let_def cong: let_weak_cong)
  moreover have "mergeZIP (defaultOptions\<lparr>store := True\<rparr>)
        ((quietEnv [''x.zip''] [(''x.zip'', [plainFile ''a.txt'' 100])])\<lparr>statfs := Some (0, 4096)\<rparr>)
      = (Inr ''abcxyz_output/merged.zip'',
         [CreateOutput ''abcxyz_output/merged.zip'',
          Header ''x.zip'' ''a.txt'' ''a.txt'' False 100,
          WriteChunk 100,
          Render ''[1/1] x.zip'' 100 100 100 100 100 100,
          Newline,
          Finished ''abcxyz_output/merged.zip''])"
    by (simp add: job_defs name_defs need_defs Let_def cong: let_weak_cong)
  ultimately show ?thesis
    by blast
qed

text \<open>
  C6, as stated: the totals of the catalog leave out the entries that the skip rule
  excludes. They do not: for an archive with \<^verbatim>\<open>a.txt\<close> of 10 bytes, \<^verbatim>\<open>__MACOSX/._a.txt\<close> of 5 bytes and
  \<^verbatim>\<open>.DS_Store\<close> of 7 bytes, the archive total, the overall total and the compressed total
  are 22, not 10, although the skip rule excludes the last two entries.
\<close>

theorem totals_count_skipped_entries:
  "shouldSkipPath ''__MACOSX/._a.txt'' \<and> shouldSkipPath ''.DS_Store''
   \<and> sumUncompressed [plainFile ''a.txt'' 10, plainFile ''__MACOSX/._a.txt'' 5, plainFile ''.DS_Store'' 7] = 22
   \<and> overallTotalFrom
        (quietEnv [''x.zip'']
           [(''x.zip'', [plainFile ''a.txt'' 10, plainFile ''__MACOSX/._a.txt'' 5, plainFile ''.DS_Store'' 7])])
        0 [''x.zip''] = 22
   \<and> overallCompressedFrom
        (quietEnv [''x.zip'']
           [(''x.zip'', [plainFile ''a.txt'' 10, plainFile ''__MACOSX/._a.txt'' 5, plainFile ''.DS_Store'' 7])])
        0 [''x.zip''] = 22"
  by (simp add: job_defs name_defs need_defs)

lemma sumUncompressedFrom_range: "t < 2 ^ 64 \<Longrightarrow> sumUncompressedFrom t fs < 2 ^ 64"
  by (induction fs arbitrary: t) (auto simp: u64_def)

lemma sumUncompressedFrom_mod:
  "sumUncompressedFrom t fs mod 2 ^ 64 =
     (t + sum_list (map fusize (filter (\<lambda>f. \<not> fisDir f) fs))) mod 2 ^ 64"
proof (induction fs arbitrary: t)
  case Nil
  then show ?case by simp
next
  case (Cons f fs)
  show ?case
  proof (cases "fisDir f")
    case True
    then show ?thesis using Cons.IH by simp
  next
    case False
    let ?S = "sum_list (map fusize (filter (\<lambda>f. \<not> fisDir f) fs))"
    have "sumUncompressedFrom t (f # fs) mod 2 ^ 64 = ((t + fusize f) mod 2 ^ 64 + ?S) mod 2 ^ 64"
      using False Cons.IH by (simp add: u64_def)
    also have "\<dots> = (t + fusize f + ?S) mod 2 ^ 64"
      by (rule mod_add_left_eq)
    finally show ?thesis
      using False by (simp add: add.assoc)
  qed
qed

lemma sumUncompressed_all_files:
  "sumUncompressed fs = sum_list (map fusize (filter (\<lambda>f. \<not> fisDir f) fs)) mod 2 ^ 64"
proof -
  have "sumUncompressedFrom 0 fs < 2 ^ 64"
    by (rule sumUncompressedFrom_range) simp
  then have "sumUncompressedFrom 0 fs = sumUncompressedFrom 0 fs mod 2 ^ 64"
    by simp
  then show ?thesis
    using sumUncompressedFrom_mod [of 0 fs] by (simp add: sumUncompressed_def)
qed

lemma nonDirs_simps [simp]:
  "nonDirs [] = []"
  "nonDirs (f # fs) = (if fisDir f then nonDirs fs else f # nonDirs fs)"
  "nonDirs (fs @ gs) = nonDirs fs @ nonDirs gs"
  by (simp_all add: nonDirs_def)

lemma sumCompressedFrom_range: "t < 2 ^ 64 \<Longrightarrow> sumCompressedFrom t fs < 2 ^ 64"
  by (induction fs arbitrary: t) (auto simp: u64_def)

lemma sumCompressedFrom_mod:
  "sumCompressedFrom t fs mod 2 ^ 64 = (t + sum_list (map fcsize (nonDirs fs))) mod 2 ^ 64"
proof (induction fs arbitrary: t)
  case Nil
  then show ?case by simp
next
  case (Cons f fs)
  show ?case
  proof (cases "fisDir f")
    case True
    then show ?thesis using Cons.IH by simp
  next
    case False
    let ?S = "sum_list (map fcsize (nonDirs fs))"
    have "sumCompressedFrom t (f # fs) mod 2 ^ 64 = ((t + fcsize f) mod 2 ^ 64 + ?S) mod 2 ^ 64"
      using False Cons.IH by (simp add: u64_def)
    also have "\<dots> = (t + fcsize f + ?S) mod 2 ^ 64"
      by (rule mod_add_left_eq)
    finally show ?thesis
      using False by (simp add: add.assoc)
  qed
qed

lemma overallTotalFrom_range: "t < 2 ^ 64 \<Longrightarrow> overallTotalFrom e t names < 2 ^ 64"
  by (induction names arbitrary: t) (auto simp: u64_def split: option.splits)

lemma overallCompressedFrom_range: "t < 2 ^ 64 \<Longrightarrow> overallCompressedFrom e t names < 2 ^ 64"
proof (induction names arbitrary: t)
  case Nil
  then show ?case by simp
next
  case (Cons name names)
  show ?case
  proof (cases "zips e name")
    case None
    then show ?thesis using Cons by simp
  next
    case (Some fs)
    have "sumCompressedFrom t fs < 2 ^ 64"
      using Cons.prems by (rule sumCompressedFrom_range)
    then show ?thesis
      using Some Cons.IH by simp
  qed
qed

lemma overallTotalFrom_mod:
  "overallTotalFrom e t names mod 2 ^ 64 =
     (t + sum_list (map fusize (nonDirs (openedEntries e names)))) mod 2 ^ 64"
proof (induction names arbitrary: t)
  case Nil
  then show ?case by (simp add: openedEntries_def)
next
  case (Cons name names)
  show ?case
  proof (cases "zips e name")
    case None
    then show ?thesis using Cons.IH by (simp add: openedEntries_def)
  next
    case (Some fs)
    let ?A = "sum_list (map fusize (nonDirs fs))"
    let ?S = "sum_list (map fusize (nonDirs (openedEntries e names)))"
    have "overallTotalFrom e t (name # names) mod 2 ^ 64
            = ((t + ?A mod 2 ^ 64) mod 2 ^ 64 + ?S) mod 2 ^ 64"
      using Some Cons.IH by (simp add: u64_def sumUncompressed_all_files nonDirs_def)
    also have "\<dots> = ((t + ?A) mod 2 ^ 64 + ?S) mod 2 ^ 64"
      by (simp add: mod_add_right_eq)
    also have "\<dots> = (t + ?A + ?S) mod 2 ^ 64"
      by (rule mod_add_left_eq)
    finally show ?thesis
      using Some by (simp add: openedEntries_def add.assoc)
  qed
qed

lemma overallCompressedFrom_mod:
  "overallCompressedFrom e t names mod 2 ^ 64 =
     (t + sum_list (map fcsize (nonDirs (openedEntries e names)))) mod 2 ^ 64"
proof (induction names arbitrary: t)
  case Nil
  then show ?case by (simp add: openedEntries_def)
next
  case (Cons name names)
  show ?case
  proof (cases "zips e name")
    case None
    then show ?thesis using Cons.IH by (simp add: openedEntries_def)
  next
    case (Some fs)
    let ?A = "sum_list (map fcsize (nonDirs fs))"
    let ?S = "sum_list (map fcsize (nonDirs (openedEntries e names)))"
    have "overallCompressedFrom e t (name # names) mod 2 ^ 64
            = (sumCompressedFrom t fs + ?S) mod 2 ^ 64"
      using Some Cons.IH by simp
    also have "\<dots> = (sumCompressedFrom t fs mod 2 ^ 64 + ?S) mod 2 ^ 64"
      by (simp add: mod_add_left_eq)
    also have "\<dots> = ((t + ?A) mod 2 ^ 64 + ?S) mod 2 ^ 64"
      by (simp only: sumCompressedFrom_mod)
    also have "\<dots> = (t + ?A + ?S) mod 2 ^ 64"
      by (rule mod_add_left_eq)
    finally show ?thesis
      using Some by (simp add: openedEntries_def add.assoc)
  qed
qed

text \<open>
  C6, as the program has it: the total of an archive is the sum of the uncompressed sizes
  of all its entries that are not directories; the overall total is that sum over the
  archives that open, and the compressed total is the sum of their compressed sizes; all
  three in \<^verbatim>\<open>uint64\<close>. The skip rule plays no part in them: it is applied only when the
  entries are merged.
\<close>

theorem catalog_totals:
  "zipTotal e name =
     (case zips e name of None \<Rightarrow> 0 | Some fs \<Rightarrow> sum_list (map fusize (nonDirs fs)) mod 2 ^ 64)
   \<and> overallTotalFrom e 0 names = sum_list (map fusize (nonDirs (openedEntries e names))) mod 2 ^ 64
   \<and> overallCompressedFrom e 0 names
        = sum_list (map fcsize (nonDirs (openedEntries e names))) mod 2 ^ 64"
proof -
  have "overallTotalFrom e 0 names = overallTotalFrom e 0 names mod 2 ^ 64"
    using overallTotalFrom_range [of 0 e names] by simp
  moreover have "overallCompressedFrom e 0 names = overallCompressedFrom e 0 names mod 2 ^ 64"
    using overallCompressedFrom_range [of 0 e names] by simp
  ultimately show ?thesis
    using overallTotalFrom_mod [of e 0 names] overallCompressedFrom_mod [of e 0 names]
    by (simp add: zipTotal_def sumUncompressed_all_files nonDirs_def split: option.splits)
qed

section \<open>Fatal errors and warnings\<close>


lemma endsAtWriteFailure_append:
  "WriteFailed \<notin> set evs1 \<Longrightarrow> endsAtWriteFailure res evs2 \<Longrightarrow> endsAtWriteFailure res (evs1 @ evs2)"
  by (cases res) (auto simp: endsAtWriteFailure_def)

lemma printZipProgress_trace:
  "\<exists>evs. trace (printZipProgress prefix dn tot ad at st) = trace st @ evs \<and> WriteFailed \<notin> set evs"
  by (simp add: printZipProgress_def Let_def)

lemma closingFlush_trace:
  "\<exists>evs. trace (closingFlush fail b st) = trace st @ evs \<and> WriteFailed \<notin> set evs"
  by (simp add: closingFlush_def)

lemma copyLoop_trace:
  "copyLoop prefix tz ot name inner fail b cs st = (res, st') \<Longrightarrow>
   \<exists>evs. trace st' = trace st @ evs \<and> endsAtWriteFailure res evs"
proof (induction cs arbitrary: st b)
  case Nil
  then show ?case
    using closingFlush_trace [of fail b st] by (auto simp: endsAtWriteFailure_def)
next
  case (Cons c cs)
  show ?case
  proof (cases "if cn c > 0 then bwWrite fail b (cn c) else Some b")
    case None
    then show ?thesis
      using Cons.prems by (auto simp: endsAtWriteFailure_def)
  next
    case (Some b1)
    define st1 where "st1 =
          (if cn c > 0
           then let dz = u64 (doneZip st + cn c); od = u64 (overallDone st + cn c)
                in printZipProgress prefix dz tz od ot
                     (st\<lparr>overallDone := od, doneZip := dz,
                         trace := trace st @ [WriteChunk (cn c)]\<rparr>)
           else st)"
    obtain evs1 where e1: "trace st1 = trace st @ evs1" "WriteFailed \<notin> set evs1"
    proof (cases "cn c > 0")
      case True
      obtain evs where "trace st1 = (trace st @ [WriteChunk (cn c)]) @ evs" "WriteFailed \<notin> set evs"
        using printZipProgress_trace [of prefix "u64 (doneZip st + cn c)" tz "u64 (overallDone st + cn c)" ot
            "st\<lparr>overallDone := u64 (overallDone st + cn c), doneZip := u64 (doneZip st + cn c),
                         trace := trace st @ [WriteChunk (cn c)]\<rparr>"]
          True by (auto simp: st1_def Let_def)
      then show ?thesis
        using that [of "WriteChunk (cn c) # evs"] by simp
    next
      case False
      then show ?thesis
        using that [of "[]"] by (simp add: st1_def)
    qed
    have step: "copyLoop prefix tz ot name inner fail b (c # cs) st =
        (case cerr c of
           NoErr \<Rightarrow> copyLoop prefix tz ot name inner fail b1 cs st1
         | EOF \<Rightarrow> (None, closingFlush fail b1 st1)
         | ReadFail \<Rightarrow> (None, closingFlush fail b1 (st1\<lparr>trace := trace st1 @ [WarnRead inner name]\<rparr>)))"
      using Some by (cases "cerr c") (auto simp: st1_def Let_def)
    show ?thesis
    proof (cases "cerr c")
      case NoErr
      then have "copyLoop prefix tz ot name inner fail b1 cs st1 = (res, st')"
        using step Cons.prems by simp
      then obtain evs2 where "trace st' = trace st1 @ evs2" "endsAtWriteFailure res evs2"
        using Cons.IH by blast
      then show ?thesis
        using e1 endsAtWriteFailure_append [of evs1 res evs2] by auto
    next
      case EOF
      then show ?thesis
        using step Cons.prems e1 by (auto simp: endsAtWriteFailure_def closingFlush_def)
    next
      case ReadFail
      then show ?thesis
        using step Cons.prems e1 by (auto simp: endsAtWriteFailure_def closingFlush_def)
    qed
  qed
qed

lemma mergeEntry_trace:
  "mergeEntry opt prefix tz ot name f st = (res, st') \<Longrightarrow>
   \<exists>evs. trace st' = trace st @ evs \<and> endsAtWriteFailure res evs"
proof -
  assume a: "mergeEntry opt prefix tz ot name f st = (res, st')"
  obtain target dedup' where t: "mapTargetName (prefixByZip opt) name (fname f) (dedup st) = (target, dedup')"
    by (cases "mapTargetName (prefixByZip opt) name (fname f) (dedup st)")
  show ?thesis
  proof (cases "fisDir f \<or> shouldSkipPath (fname f) \<or> fhdrFails f \<or> fopenFails f")
    case True
    then show ?thesis
      using a t by (auto simp: mergeEntry_def endsAtWriteFailure_def Let_def split: if_splits)
  next
    case False
    let ?st2 = "st\<lparr>dedup := dedup', trace := trace st @
                          [Header name (fname f) (toSlash target) (\<not> store opt) (fusize f)]\<rparr>"
    have "copyLoop prefix tz ot name (fname f) (fwfail f) newWriter (fchunks f) ?st2 = (res, st')"
      using a t False by (simp add: mergeEntry_def Let_def)
    then obtain evs where "trace st' = trace ?st2 @ evs" "endsAtWriteFailure res evs"
      using copyLoop_trace by blast
    then show ?thesis
      using endsAtWriteFailure_append [of "[Header name (fname f) (toSlash target) (\<not> store opt) (fusize f)]" res evs]
      by auto
  qed
qed

lemma mergeEntries_trace:
  "mergeEntries opt prefix tz ot name fs st = (res, st') \<Longrightarrow>
   \<exists>evs. trace st' = trace st @ evs \<and> endsAtWriteFailure res evs"
proof (induction fs arbitrary: st)
  case Nil
  then show ?case by (simp add: endsAtWriteFailure_def)
next
  case (Cons f fs)
  obtain r1 st1 where m: "mergeEntry opt prefix tz ot name f st = (r1, st1)"
    by (cases "mergeEntry opt prefix tz ot name f st")
  then obtain evs1 where e1: "trace st1 = trace st @ evs1" "endsAtWriteFailure r1 evs1"
    using mergeEntry_trace by blast
  show ?case
  proof (cases r1)
    case None
    then have "mergeEntries opt prefix tz ot name fs st1 = (res, st')"
      using Cons.prems m by simp
    then obtain evs2 where "trace st' = trace st1 @ evs2" "endsAtWriteFailure res evs2"
      using Cons.IH by blast
    then show ?thesis
      using e1 None endsAtWriteFailure_append [of evs1 res evs2]
      by (auto simp: endsAtWriteFailure_def)
  next
    case (Some err)
    then show ?thesis
      using Cons.prems m e1 by auto
  qed
qed

lemma mergeArchive_trace:
  "mergeArchive opt e ot n idx name st = (res, st') \<Longrightarrow>
   \<exists>evs. trace st' = trace st @ evs \<and> endsAtWriteFailure res evs"
proof (cases "zips e name")
  case None
  assume "mergeArchive opt e ot n idx name st = (res, st')"
  then show ?thesis
    using None by (auto simp: mergeArchive_def endsAtWriteFailure_def)
next
  case (Some fs)
  assume a: "mergeArchive opt e ot n idx name st = (res, st')"
  let ?st0 = "st\<lparr>doneZip := 0, lastZipPct := - 1, lastAllPct := - 1\<rparr>"
  obtain r1 st1 where m: "mergeEntries opt (progressPrefix idx n name) (zipTotal e name) ot name fs ?st0 = (r1, st1)"
    by (cases "mergeEntries opt (progressPrefix idx n name) (zipTotal e name) ot name fs ?st0")
  then obtain evs1 where e1: "trace st1 = trace st @ evs1" "endsAtWriteFailure r1 evs1"
    using mergeEntries_trace [OF m] by auto
  show ?thesis
  proof (cases r1)
    case None
    obtain evs2 where e2: "trace (printZipProgress (progressPrefix idx n name) (zipTotal e name) (zipTotal e name)
                              (overallDone st1) ot st1) = trace st1 @ evs2" "WriteFailed \<notin> set evs2"
      using printZipProgress_trace by blast
    have "res = None" "trace st' = trace st @ evs1 @ evs2 @ [Newline]"
      using a Some m None e1 e2 by (auto simp: mergeArchive_def Let_def)
    then show ?thesis
      using e1 e2 None by (auto simp: endsAtWriteFailure_def)
  next
    case (Some err)
    then have "res = r1" "st' = st1"
      using a \<open>zips e name = Some fs\<close> m by (auto simp: mergeArchive_def Let_def)
    then show ?thesis
      using e1 by auto
  qed
qed

lemma mergeArchives_trace:
  "mergeArchives opt e ot n idx names st = (res, st') \<Longrightarrow>
   \<exists>evs. trace st' = trace st @ evs \<and> endsAtWriteFailure res evs"
proof (induction names arbitrary: st idx)
  case Nil
  then show ?case by (simp add: endsAtWriteFailure_def)
next
  case (Cons name names)
  obtain r1 st1 where m: "mergeArchive opt e ot n idx name st = (r1, st1)"
    by (cases "mergeArchive opt e ot n idx name st")
  then obtain evs1 where e1: "trace st1 = trace st @ evs1" "endsAtWriteFailure r1 evs1"
    using mergeArchive_trace by blast
  show ?case
  proof (cases r1)
    case None
    then have "mergeArchives opt e ot n (idx + 1) names st1 = (res, st')"
      using Cons.prems m by simp
    then obtain evs2 where "trace st' = trace st1 @ evs2" "endsAtWriteFailure res evs2"
      using Cons.IH by blast
    then show ?thesis
      using e1 None endsAtWriteFailure_append [of evs1 res evs2]
      by (auto simp: endsAtWriteFailure_def)
  next
    case (Some err)
    then show ?thesis
      using Cons.prems m e1 by auto
  qed
qed


lemma bytesWritten_append: "bytesWritten (xs @ ys) = bytesWritten xs + bytesWritten ys"
  by (induction xs rule: bytesWritten.induct) simp_all

text \<open>
  A job that does not get past a failed write: the second read of \<^verbatim>\<open>a.txt\<close> fills the buffer
  of 4096 bytes, the buffer goes to the entry writer, and that call fails. And a job in
  which the entry writer fails only in the closing flush of \<^verbatim>\<open>a.txt\<close>: the error is dropped,
  the next entry is tried, and the job ends with the error of closing the archive.
\<close>

lemma write_error_trace:
  "mergeZIP defaultOptions
     (quietEnv [''x.zip'', ''y.zip'']
        [(''x.zip'', [(plainFile ''a.txt'' 8000)
                        \<lparr>fchunks := [Chunk 4000 NoErr, Chunk 4000 NoErr], fwfail := Some 0\<rparr>,
                      plainFile ''b.txt'' 20]),
         (''y.zip'', [plainFile ''c.txt'' 5])])
   = (Inl WriteErr,
      [CreateOutput ''abcxyz_output/merged.zip'',
       Header ''x.zip'' ''a.txt'' ''a.txt'' True 8000,
       WriteChunk 4000,
       Render ''[1/2] x.zip'' 49 4000 8020 49 4000 8025,
       WriteFailed])"
  by (simp add: job_defs name_defs need_defs Let_def cong: let_weak_cong)

lemma dropped_flush_trace:
  "mergeZIP defaultOptions
     ((quietEnv [''x.zip'']
         [(''x.zip'', [(plainFile ''a.txt'' 20)\<lparr>fwfail := Some 0\<rparr>,
                       (plainFile ''b.txt'' 5)\<lparr>fhdrFails := True\<rparr>])])\<lparr>zwCloseFails := True\<rparr>)
   = (Inl CloseErr,
      [CreateOutput ''abcxyz_output/merged.zip'',
       Header ''x.zip'' ''a.txt'' ''a.txt'' True 20,
       WriteChunk 20,
       Render ''[1/1] x.zip'' 80 20 25 80 20 25,
       FlushFailed,
       WarnHeader ''b.txt'',
       Render ''[1/1] x.zip'' 100 25 25 80 20 25,
       Newline])"
  by (simp add: job_defs name_defs need_defs Let_def cong: let_weak_cong)
























section \<open>The space check in general\<close>

lemma scanWarnings_only_warnings: "ev \<in> set (scanWarnings e names) \<Longrightarrow> \<exists>name. ev = WarnArchive name"
  by (induction names) (auto split: option.splits)

text \<open>
  C5, as the program has it: \<^verbatim>\<open>freeBytes\<close> stays 0 when the free space is not measured, and
  the check is \<^verbatim>\<open>freeBytes > 0 && freeBytes < need\<close>. For a job that has its output directory
  and at least one archive: when the free space is reported as a number above zero and
  below the requirement, the job returns the space error with both numbers and has done
  nothing but print the warnings of the catalog, so the output file is not created and
  nothing is written; when the free space is not measured, or is reported as zero, the
  job does not end with the space error and goes on to create the output file.
\<close>

theorem space_check:
  assumes "\<not> mkdirFails e" and "listZipFiles e = Some names" and "names \<noteq> []"
    and "need = diskNeed (f2uImpl e) (store opt) (overallTotalFrom e 0 names)
                  (overallCompressedFrom e 0 names)"
  shows "(0 < freeBytes (statfs e) \<and> freeBytes (statfs e) < need \<longrightarrow>
            mergeZIP opt e = (Inl (NoSpace need (freeBytes (statfs e))), scanWarnings e names)
            \<and> (\<forall>ev\<in>set (scanWarnings e names). \<exists>name. ev = WarnArchive name))
     \<and> (freeBytes (statfs e) = 0 \<longrightarrow>
            fst (mergeZIP opt e) \<noteq> Inl (NoSpace n f)
            \<and> (\<not> createFails e \<longrightarrow>
                 CreateOutput (filepathJoin (outDir opt) (outBase opt @ ''.zip''))
                   \<in> set (snd (mergeZIP opt e))))"
proof -
  have reject: "mergeZIP opt e = (Inl (NoSpace need (freeBytes (statfs e))), scanWarnings e names)"
    if "0 < freeBytes (statfs e)" and "freeBytes (statfs e) < need"
    using assms that by (simp add: mergeZIP_def Let_def spaceRejected_def)
  have warn: "\<forall>ev\<in>set (scanWarnings e names). \<exists>name. ev = WarnArchive name"
    using scanWarnings_only_warnings by blast
  have skip: "fst (mergeZIP opt e) \<noteq> Inl (NoSpace n f)
      \<and> (\<not> createFails e \<longrightarrow>
           CreateOutput (filepathJoin (outDir opt) (outBase opt @ ''.zip'')) \<in> set (snd (mergeZIP opt e)))"
    if none: "freeBytes (statfs e) = 0"
  proof -
    define ot where "ot = overallTotalFrom e 0 names"
    define tr1 where "tr1 = scanWarnings e names"
    define outPath where "outPath = filepathJoin (outDir opt) (outBase opt @ ''.zip'')"
    obtain res st where loop: "mergeArchives opt e ot (length names) 0 names
                           (initState (tr1 @ [CreateOutput outPath])) = (res, st)"
      by (cases "mergeArchives opt e ot (length names) 0 names (initState (tr1 @ [CreateOutput outPath]))")
    then obtain evs where evs: "trace st = (tr1 @ [CreateOutput outPath]) @ evs" "endsAtWriteFailure res evs"
      using mergeArchives_trace [OF loop] by (auto simp: initState_def)
    then have err: "res = None \<or> res = Some WriteErr"
      by (cases res) (auto simp: endsAtWriteFailure_def)
    have made: "CreateOutput outPath \<in> set (trace st)"
      using evs(1) by simp
    have "mergeZIP opt e = (Inl CreateErr, tr1) \<and> createFails e
        \<or> fst (mergeZIP opt e) \<in> {Inl WriteErr, Inl CloseErr, Inr outPath}
            \<and> (snd (mergeZIP opt e) = trace st \<or> snd (mergeZIP opt e) = trace st @ [Finished outPath])"
      using assms(1-3) none loop err unfolding ot_def tr1_def outPath_def
      by (auto simp: mergeZIP_def Let_def spaceRejected_def)
    then show ?thesis
      using made unfolding outPath_def by auto
  qed
  show ?thesis
    using reject warn skip by blast
qed

text \<open>
  The theorem on the archive of one entry of 100 bytes in store mode, which needs 105
  bytes: with 100 bytes free the job is rejected, with the free space unmeasured the
  output file is created.
\<close>

theorem space_check_witness:
  "mergeZIP (defaultOptions\<lparr>store := True\<rparr>)
        ((quietEnv [''x.zip''] [(''x.zip'', [plainFile ''a.txt'' 100])])\<lparr>statfs := Some (1, 100)\<rparr>)
      = (Inl (NoSpace 105 100), [])
   \<and> fst (mergeZIP (defaultOptions\<lparr>store := True\<rparr>)
        (quietEnv [''x.zip''] [(''x.zip'', [plainFile ''a.txt'' 100])])) \<noteq> Inl (NoSpace 105 0)
   \<and> CreateOutput ''abcxyz_output/merged.zip''
        \<in> set (snd (mergeZIP (defaultOptions\<lparr>store := True\<rparr>)
             (quietEnv [''x.zip''] [(''x.zip'', [plainFile ''a.txt'' 100])])))"
proof -
  let ?opt = "defaultOptions\<lparr>store := True\<rparr>"
  let ?e0 = "quietEnv [''x.zip''] [(''x.zip'', [plainFile ''a.txt'' 100])]"
  let ?e1 = "?e0\<lparr>statfs := Some (1, 100)\<rparr>"
  have names0: "listZipFiles ?e0 = Some [''x.zip'']" and names1: "listZipFiles ?e1 = Some [''x.zip'']"
    by (simp_all add: listZipFiles_def sortNames_def quietEnv_def)
  have need0: "diskNeed (f2uImpl ?e0) (store ?opt) (overallTotalFrom ?e0 0 [''x.zip''])
      (overallCompressedFrom ?e0 0 [''x.zip'']) = 105"
    by (simp add: need_defs quietEnv_def plainFile_def defaultOptions_def sumUncompressed_def
          Let_def cong: let_weak_cong)
  have need1: "diskNeed (f2uImpl ?e1) (store ?opt) (overallTotalFrom ?e1 0 [''x.zip''])
      (overallCompressedFrom ?e1 0 [''x.zip'']) = 105"
    by (simp add: need_defs quietEnv_def plainFile_def defaultOptions_def sumUncompressed_def
          Let_def cong: let_weak_cong)
  have warn1: "scanWarnings ?e1 [''x.zip''] = []"
    by (simp add: quietEnv_def)
  have "mergeZIP ?opt ?e1 = (Inl (NoSpace 105 100), [])"
    using space_check [of ?e1 "[''x.zip'']" 105 ?opt, OF _ names1 _ need1 [symmetric]]
    by (simp add: freeBytes_def u64_def warn1 quietEnv_def)
  moreover have "fst (mergeZIP ?opt ?e0) \<noteq> Inl (NoSpace 105 0)
      \<and> CreateOutput ''abcxyz_output/merged.zip'' \<in> set (snd (mergeZIP ?opt ?e0))"
    using space_check [of ?e0 "[''x.zip'']" 105 ?opt 105 0, OF _ names0 _ need0 [symmetric]]
    by (simp add: freeBytes_def quietEnv_def defaultOptions_def filepathJoin_def filepathClean_def)
  ultimately show ?thesis
    by blast
qed

section \<open>Progress of a job\<close>

text \<open>
  C9, as stated: the last overall percentage printed by a job is 100. For an archive with
  \<^verbatim>\<open>a.txt\<close> of 10 bytes and \<^verbatim>\<open>b.txt\<close> of 5 bytes, where \<^verbatim>\<open>b.txt\<close> cannot be opened for reading
  (a warning, after which the job goes on), the job succeeds and the last one is 66.
\<close>

theorem final_percentage_counterexample:
  "fst (mergeZIP defaultOptions
      (quietEnv [''x.zip'']
         [(''x.zip'', [plainFile ''a.txt'' 10, (plainFile ''b.txt'' 5)\<lparr>fopenFails := True\<rparr>])]))
     = Inr ''abcxyz_output/merged.zip''
   \<and> last (overallPcts (snd (mergeZIP defaultOptions
      (quietEnv [''x.zip'']
         [(''x.zip'', [plainFile ''a.txt'' 10, (plainFile ''b.txt'' 5)\<lparr>fopenFails := True\<rparr>])]))))
     = 66"
  by (simp add: job_defs name_defs need_defs Let_def cong: let_weak_cong)

lemma overallPcts_append: "overallPcts (xs @ ys) = overallPcts xs @ overallPcts ys"
  by (induction xs rule: overallPcts.induct) simp_all

lemma pct_eq:
  assumes "100 * d < 2 ^ 63"
  shows "pct d T = (if T > 0 then int (d * 100 div T) else 100)"
proof -
  have a: "d * 100 < 2 ^ 64"
    using assms by simp
  have "d * 100 < 2 ^ 63"
    using assms by (simp add: mult.commute)
  moreover have "d * 100 div T \<le> d * 100"
    by (rule div_le_dividend)
  ultimately have b: "d * 100 div T < 2 ^ 63"
    by (rule le_less_trans [rotated])
  show ?thesis
    using a b by (simp add: pct_def u64_def asInt_def)
qed

lemma pct_mono:
  assumes "d \<le> d'" and "100 * d' < 2 ^ 63"
  shows "pct d T \<le> pct d' T"
proof -
  have "100 * d < 2 ^ 63"
    using assms by simp
  moreover have "d * 100 div T \<le> d' * 100 div T"
    using assms(1) by (intro div_le_mono) simp
  ultimately show ?thesis
    using assms(2) by (simp add: pct_eq)
qed

lemma pct_nonneg: "100 * d < 2 ^ 63 \<Longrightarrow> 0 \<le> pct d T"
  by (simp add: pct_eq)

lemma pct_full: "100 * T < 2 ^ 63 \<Longrightarrow> pct T T = 100"
  by (simp add: pct_eq)

lemma printZipProgress_inv:
  assumes "countInv T st" and "shownInv st"
  shows "countInv T (printZipProgress prefix dn tot (overallDone st) T st)
     \<and> shownInv (printZipProgress prefix dn tot (overallDone st) T st)
     \<and> overallDone (printZipProgress prefix dn tot (overallDone st) T st) = overallDone st"
  using assms
  by (auto simp: printZipProgress_def Let_def countInv_def shownInv_def overallPcts_append
        bytesWritten_append sorted_append)

lemma u64_small: "n < 2 ^ 64 \<Longrightarrow> u64 n = n"
  by (simp add: u64_def)

lemma chunk_inv:
  assumes "countInv T st" and "shownInv st" and "100 * (overallDone st + n) < 2 ^ 63"
    and "st2 = st\<lparr>overallDone := u64 (overallDone st + n), doneZip := dz,
                    trace := trace st @ [WriteChunk n]\<rparr>"
    and "st3 = printZipProgress prefix dz tz (u64 (overallDone st + n)) T st2"
  shows "countInv T st3 \<and> shownInv st3 \<and> overallDone st3 = overallDone st + n"
proof -
  have od: "u64 (overallDone st + n) = overallDone st + n"
    using assms(3) by (intro u64_small) simp
  have mono: "pct (overallDone st) T \<le> pct (overallDone st + n) T"
    using assms(3) by (intro pct_mono) simp_all
  have c2: "countInv T st2"
    using assms(1) mono
    by (auto simp: assms(4) od countInv_def overallPcts_append bytesWritten_append)
  have s2: "shownInv st2"
    using assms(2) by (simp add: assms(4) shownInv_def overallPcts_append)
  have o2: "overallDone st2 = overallDone st + n"
    by (simp add: assms(4) od)
  show ?thesis
    using printZipProgress_inv [OF c2 s2, of prefix dz tz] o2 od by (simp add: assms(5))
qed

lemma closingFlush_inv:
  "countInv T st \<Longrightarrow> shownInv st \<Longrightarrow>
   countInv T (closingFlush fail b st) \<and> shownInv (closingFlush fail b st)
   \<and> overallDone (closingFlush fail b st) = overallDone st"
  by (auto simp: closingFlush_def countInv_def shownInv_def overallPcts_append bytesWritten_append)

lemma copyLoop_inv:
  "countInv T st \<Longrightarrow> shownInv st \<Longrightarrow> 100 * (overallDone st + chunkBytes cs) < 2 ^ 63 \<Longrightarrow>
   copyLoop prefix tz T name inner fail b cs st = (res, st') \<Longrightarrow>
   countInv T st' \<and> shownInv st' \<and> overallDone st \<le> overallDone st'
   \<and> overallDone st' \<le> overallDone st + chunkBytes cs"
proof (induction cs arbitrary: st b)
  case Nil
  then show ?case
    using closingFlush_inv [of T st fail b] by auto
next
  case (Cons c cs)
  have cb: "chunkBytes (c # cs) = cn c + chunkBytes cs"
    by (simp add: chunkBytes_def)
  show ?case
  proof (cases "if cn c > 0 then bwWrite fail b (cn c) else Some b")
    case None
    then have "st' = st\<lparr>trace := trace st @ [WriteFailed]\<rparr>"
      using Cons.prems by auto
    then show ?thesis
      using Cons.prems(1,2) by (auto simp: countInv_def shownInv_def overallPcts_append bytesWritten_append)
  next
    case (Some b1)
    define st1 where "st1 =
          (if cn c > 0
           then let dz = u64 (doneZip st + cn c); od = u64 (overallDone st + cn c)
                in printZipProgress prefix dz tz od T
                     (st\<lparr>overallDone := od, doneZip := dz,
                         trace := trace st @ [WriteChunk (cn c)]\<rparr>)
           else st)"
    have step: "copyLoop prefix tz T name inner fail b (c # cs) st =
        (case cerr c of
           NoErr \<Rightarrow> copyLoop prefix tz T name inner fail b1 cs st1
         | EOF \<Rightarrow> (None, closingFlush fail b1 st1)
         | ReadFail \<Rightarrow> (None, closingFlush fail b1 (st1\<lparr>trace := trace st1 @ [WarnRead inner name]\<rparr>)))"
      using Some by (cases "cerr c") (auto simp: st1_def Let_def)
    have i1: "countInv T st1 \<and> shownInv st1 \<and> overallDone st1 = overallDone st + cn c"
    proof (cases "cn c > 0")
      case True
      have "100 * (overallDone st + cn c) < 2 ^ 63"
        using Cons.prems(3) cb by simp
      then show ?thesis
        using chunk_inv [OF Cons.prems(1,2), of "cn c" _ "u64 (doneZip st + cn c)" st1 prefix tz] True
        by (simp add: st1_def Let_def)
    next
      case False
      then show ?thesis
        using Cons.prems(1,2) by (simp add: st1_def)
    qed
    show ?thesis
    proof (cases "cerr c")
      case NoErr
      then have run: "copyLoop prefix tz T name inner fail b1 cs st1 = (res, st')"
        using step Cons.prems(4) by simp
      have "100 * (overallDone st1 + chunkBytes cs) < 2 ^ 63"
        using Cons.prems(3) cb i1 by (simp add: add.assoc)
      then have "countInv T st' \<and> shownInv st' \<and> overallDone st1 \<le> overallDone st'
          \<and> overallDone st' \<le> overallDone st1 + chunkBytes cs"
        using Cons.IH [of st1 b1] i1 run by blast
      then show ?thesis
        using i1 cb by simp
    next
      case EOF
      then have "st' = closingFlush fail b1 st1"
        using step Cons.prems(4) by simp
      then show ?thesis
        using i1 cb closingFlush_inv [of T st1 fail b1] by simp
    next
      case ReadFail
      let ?st2 = "st1\<lparr>trace := trace st1 @ [WarnRead inner name]\<rparr>"
      have "st' = closingFlush fail b1 ?st2"
        using ReadFail step Cons.prems(4) by simp
      moreover have "countInv T ?st2 \<and> shownInv ?st2 \<and> overallDone ?st2 = overallDone st1"
        using i1 by (auto simp: countInv_def shownInv_def overallPcts_append bytesWritten_append)
      ultimately show ?thesis
        using i1 cb closingFlush_inv [of T ?st2 fail b1] by simp
    qed
  qed
qed

lemma mergeEntry_inv:
  assumes "countInv T st" and "shownInv st"
    and "100 * (overallDone st + chunkBytes (fchunks f)) < 2 ^ 63"
    and "mergeEntry opt prefix tz T name f st = (res, st')"
  shows "countInv T st' \<and> shownInv st' \<and> overallDone st \<le> overallDone st'
     \<and> overallDone st' \<le> overallDone st + chunkBytes (fchunks f)"
proof -
  obtain target dedup' where t: "mapTargetName (prefixByZip opt) name (fname f) (dedup st) = (target, dedup')"
    by (cases "mapTargetName (prefixByZip opt) name (fname f) (dedup st)")
  show ?thesis
  proof (cases "fisDir f \<or> shouldSkipPath (fname f) \<or> fhdrFails f \<or> fopenFails f")
    case True
    then have "overallDone st' = overallDone st" "overallPcts (trace st') = overallPcts (trace st)"
      "bytesWritten (trace st') = bytesWritten (trace st)" "lastAllPct st' = lastAllPct st"
      using assms(4) t
      by (auto simp: mergeEntry_def Let_def overallPcts_append bytesWritten_append split: if_splits)
    then show ?thesis
      using assms(1,2) by (auto simp: countInv_def shownInv_def)
  next
    case False
    let ?st2 = "st\<lparr>dedup := dedup', trace := trace st @
                          [Header name (fname f) (toSlash target) (\<not> store opt) (fusize f)]\<rparr>"
    have run: "copyLoop prefix tz T name (fname f) (fwfail f) newWriter (fchunks f) ?st2 = (res, st')"
      using assms(4) t False by (simp add: mergeEntry_def Let_def)
    have c2: "countInv T ?st2" and s2: "shownInv ?st2"
      using assms(1,2) by (auto simp: countInv_def shownInv_def overallPcts_append bytesWritten_append)
    have b2: "100 * (overallDone ?st2 + chunkBytes (fchunks f)) < 2 ^ 63"
      using assms(3) by simp
    show ?thesis
      using copyLoop_inv [OF c2 s2 b2 run] by simp
  qed
qed

lemma mergeEntries_inv:
  "countInv T st \<Longrightarrow> shownInv st \<Longrightarrow> 100 * (overallDone st + fileBytes fs) < 2 ^ 63 \<Longrightarrow>
   mergeEntries opt prefix tz T name fs st = (res, st') \<Longrightarrow>
   countInv T st' \<and> shownInv st' \<and> overallDone st \<le> overallDone st'
   \<and> overallDone st' \<le> overallDone st + fileBytes fs"
proof (induction fs arbitrary: st)
  case Nil
  then show ?case by simp
next
  case (Cons f fs)
  have fb: "fileBytes (f # fs) = chunkBytes (fchunks f) + fileBytes fs"
    by (simp add: fileBytes_def)
  obtain r1 st1 where m: "mergeEntry opt prefix tz T name f st = (r1, st1)"
    by (cases "mergeEntry opt prefix tz T name f st")
  have "100 * (overallDone st + chunkBytes (fchunks f)) < 2 ^ 63"
    using Cons.prems(3) fb by simp
  then have i1: "countInv T st1 \<and> shownInv st1 \<and> overallDone st \<le> overallDone st1
      \<and> overallDone st1 \<le> overallDone st + chunkBytes (fchunks f)"
    using mergeEntry_inv [OF Cons.prems(1,2) _ m] by blast
  show ?case
  proof (cases r1)
    case None
    then have run: "mergeEntries opt prefix tz T name fs st1 = (res, st')"
      using Cons.prems(4) m by simp
    have "100 * (overallDone st1 + fileBytes fs) < 2 ^ 63"
      using Cons.prems(3) fb i1 by simp
    then have "countInv T st' \<and> shownInv st' \<and> overallDone st1 \<le> overallDone st'
        \<and> overallDone st' \<le> overallDone st1 + fileBytes fs"
      using Cons.IH [of st1] i1 run by blast
    then show ?thesis
      using i1 fb by simp
  next
    case (Some err)
    then have "st' = st1"
      using Cons.prems(4) m by simp
    then show ?thesis
      using i1 fb by simp
  qed
qed


lemma mergeArchive_inv:
  assumes "countInv T st" and "restInv T st"
    and "100 * (overallDone st + (case zips e name of None \<Rightarrow> 0 | Some fs \<Rightarrow> fileBytes fs)) < 2 ^ 63"
    and "mergeArchive opt e T n idx name st = (res, st')"
  shows "countInv T st' \<and> (res = None \<longrightarrow> restInv T st') \<and> overallDone st \<le> overallDone st'
     \<and> overallDone st' \<le> overallDone st + (case zips e name of None \<Rightarrow> 0 | Some fs \<Rightarrow> fileBytes fs)"
proof (cases "zips e name")
  case None
  then have "res = None" "st' = st\<lparr>trace := trace st @ [WarnArchive name]\<rparr>"
    using assms(4) by (auto simp: mergeArchive_def)
  then show ?thesis
    using assms(1,2) None
    by (auto simp: countInv_def restInv_def overallPcts_append bytesWritten_append)
next
  case (Some fs)
  let ?st0 = "st\<lparr>doneZip := 0, lastZipPct := - 1, lastAllPct := - 1\<rparr>"
  let ?prefix = "progressPrefix idx n name"
  let ?tz = "zipTotal e name"
  obtain r1 st1 where m: "mergeEntries opt ?prefix ?tz T name fs ?st0 = (r1, st1)"
    by (cases "mergeEntries opt ?prefix ?tz T name fs ?st0")
  have c0: "countInv T ?st0" and s0: "shownInv ?st0"
    using assms(1) by (auto simp: countInv_def shownInv_def)
  have b0: "100 * (overallDone ?st0 + fileBytes fs) < 2 ^ 63"
    using assms(3) Some by simp
  have i1: "countInv T st1 \<and> shownInv st1 \<and> overallDone ?st0 \<le> overallDone st1
      \<and> overallDone st1 \<le> overallDone ?st0 + fileBytes fs"
    using mergeEntries_inv [OF c0 s0 b0 m] .
  show ?thesis
  proof (cases r1)
    case (Some err)
    then have "res = r1" "st' = st1"
      using assms(4) \<open>zips e name = Some fs\<close> m by (auto simp: mergeArchive_def Let_def)
    then show ?thesis
      using i1 Some \<open>zips e name = Some fs\<close> by simp
  next
    case None
    let ?st2 = "printZipProgress ?prefix ?tz ?tz (overallDone st1) T st1"
    have res: "res = None" and st': "st' = ?st2\<lparr>trace := trace ?st2 @ [Newline]\<rparr>"
      using assms(4) \<open>zips e name = Some fs\<close> m None by (auto simp: mergeArchive_def Let_def)
    have i2: "countInv T ?st2 \<and> shownInv ?st2 \<and> overallDone ?st2 = overallDone st1"
      using printZipProgress_inv [of T st1 ?prefix ?tz ?tz] i1 by blast
    have small: "100 * overallDone st1 < 2 ^ 63"
      using b0 i1 by simp
    have shown: "overallPcts (trace ?st2) \<noteq> [] \<and> last (overallPcts (trace ?st2)) = pct (overallDone st1) T"
    proof (cases "pct ?tz ?tz \<noteq> lastZipPct st1 \<or> pct (overallDone st1) T \<noteq> lastAllPct st1")
      case True
      then show ?thesis
        by (auto simp: printZipProgress_def Let_def overallPcts_append)
    next
      case False
      then have same: "?st2 = st1" and eq: "lastAllPct st1 = pct (overallDone st1) T"
        by (auto simp: printZipProgress_def Let_def)
      have "0 \<le> lastAllPct st1"
        using pct_nonneg [OF small, of T] eq by simp
      then have "overallPcts (trace st1) \<noteq> [] \<and> last (overallPcts (trace st1)) = lastAllPct st1"
        using i1 by (auto simp: shownInv_def)
      then show ?thesis
        using same eq by simp
    qed
    have "countInv T st'"
      using i2 by (auto simp: st' countInv_def overallPcts_append bytesWritten_append)
    moreover have "restInv T st'"
      using shown i2 by (auto simp: st' restInv_def overallPcts_append)
    moreover have "overallDone st' = overallDone st1"
      using i2 by (simp add: st')
    ultimately show ?thesis
      using i1 res \<open>zips e name = Some fs\<close> by simp
  qed
qed

lemma mergeArchives_inv:
  "countInv T st \<Longrightarrow> restInv T st \<Longrightarrow> 100 * (overallDone st + namesBytes e names) < 2 ^ 63 \<Longrightarrow>
   mergeArchives opt e T n idx names st = (res, st') \<Longrightarrow>
   countInv T st' \<and> (res = None \<longrightarrow> restInv T st')
   \<and> overallDone st' \<le> overallDone st + namesBytes e names"
proof (induction names arbitrary: st idx)
  case Nil
  then show ?case by simp
next
  case (Cons name names)
  let ?b = "case zips e name of None \<Rightarrow> 0 | Some fs \<Rightarrow> fileBytes fs"
  have nb: "namesBytes e (name # names) = ?b + namesBytes e names"
    by (simp add: namesBytes_def)
  obtain r1 st1 where m: "mergeArchive opt e T n idx name st = (r1, st1)"
    by (cases "mergeArchive opt e T n idx name st")
  have "100 * (overallDone st + ?b) < 2 ^ 63"
    using Cons.prems(3) nb by simp
  then have i1: "countInv T st1 \<and> (r1 = None \<longrightarrow> restInv T st1) \<and> overallDone st \<le> overallDone st1
      \<and> overallDone st1 \<le> overallDone st + ?b"
    using mergeArchive_inv [OF Cons.prems(1,2) _ m] by blast
  show ?case
  proof (cases r1)
    case None
    then have run: "mergeArchives opt e T n (idx + 1) names st1 = (res, st')"
      using Cons.prems(4) m by simp
    have "100 * (overallDone st1 + namesBytes e names) < 2 ^ 63"
      using Cons.prems(3) nb i1 by simp
    then have "countInv T st' \<and> (res = None \<longrightarrow> restInv T st')
        \<and> overallDone st' \<le> overallDone st1 + namesBytes e names"
      using Cons.IH [of st1 "idx + 1"] i1 None run by blast
    then show ?thesis
      using i1 nb by simp
  next
    case (Some err)
    then have "st' = st1" "res = Some err"
      using Cons.prems(4) m by simp_all
    then show ?thesis
      using i1 nb by simp
  qed
qed

lemma scanWarnings_quiet:
  "overallPcts (scanWarnings e names) = [] \<and> bytesWritten (scanWarnings e names) = 0"
  by (induction names) (auto split: option.splits)

text \<open>
  C9, amended: for every job whose byte counts stay in range (a hundred times the bytes
  the readers can deliver is below \<open>2^63\<close>), the overall percentages printed are in
  non-decreasing order; and when the job succeeds, has printed at least one line, and has
  written exactly as many bytes as the overall total of the catalog, the last overall
  percentage printed is 100.
\<close>

theorem progress_monotone:
  assumes "mergeZIP opt e = (r, tr)" and "100 * jobBytes e < 2 ^ 63"
  shows "sorted (overallPcts tr)
     \<and> ((\<exists>p. r = Inr p) \<longrightarrow> overallPcts tr \<noteq> [] \<longrightarrow> bytesWritten tr = catalogTotal e
          \<longrightarrow> last (overallPcts tr) = 100)"
proof (cases "mkdirFails e \<or> listZipFiles e = None")
  case True
  then have "mergeZIP opt e = (Inl MkdirErr, []) \<or> mergeZIP opt e = (Inl ListErr, [])"
    by (auto simp: mergeZIP_def Let_def)
  then show ?thesis
    using assms(1) by auto
next
  case False
  then obtain names where names: "listZipFiles e = Some names"
    by auto
  define T where "T = overallTotalFrom e 0 names"
  define tr1 where "tr1 = scanWarnings e names"
  define need where "need = diskNeed (f2uImpl e) (store opt) T (overallCompressedFrom e 0 names)"
  define outPath where "outPath = filepathJoin (outDir opt) (outBase opt @ ''.zip'')"
  have quiet: "overallPcts tr1 = []" "bytesWritten tr1 = 0"
    by (simp_all add: tr1_def scanWarnings_quiet)
  have cat: "catalogTotal e = T"
    by (simp add: catalogTotal_def names T_def)
  have bound: "100 * namesBytes e names < 2 ^ 63"
    using assms(2) by (simp add: jobBytes_def names)
  show ?thesis
  proof (cases "length names = 0 \<or> spaceRejected (freeBytes (statfs e)) need \<or> createFails e")
    case True
    then have "mergeZIP opt e = (Inl NoZipFound, [])
        \<or> mergeZIP opt e = (Inl (NoSpace need (freeBytes (statfs e))), tr1)
        \<or> mergeZIP opt e = (Inl CreateErr, tr1)"
      using False names unfolding T_def tr1_def need_def
      by (auto simp: mergeZIP_def Let_def)
    then show ?thesis
      using assms(1) quiet by auto
  next
    case go: False
    let ?init = "initState (tr1 @ [CreateOutput outPath])"
    obtain res st where loop: "mergeArchives opt e T (length names) 0 names ?init = (res, st)"
      by (cases "mergeArchives opt e T (length names) 0 names ?init")
    have c0: "countInv T ?init" and r0: "restInv T ?init"
      using quiet by (simp_all add: countInv_def restInv_def initState_def overallPcts_append bytesWritten_append)
    have b0: "100 * (overallDone ?init + namesBytes e names) < 2 ^ 63"
      using bound by (simp add: initState_def)
    have inv: "countInv T st \<and> (res = None \<longrightarrow> restInv T st)
        \<and> overallDone st \<le> overallDone ?init + namesBytes e names"
      using mergeArchives_inv [OF c0 r0 b0 loop] .
    show ?thesis
    proof (cases res)
      case (Some err)
      then have "mergeZIP opt e = (Inl err, trace st)"
        using False names go loop unfolding T_def tr1_def need_def outPath_def
        by (simp add: mergeZIP_def Let_def)
      then show ?thesis
        using assms(1) inv by (auto simp: countInv_def)
    next
      case None
      have fin: "mergeZIP opt e = (Inl CloseErr, trace st)
            \<or> mergeZIP opt e = (Inr outPath, trace st @ [Finished outPath])"
        using False names go loop None unfolding T_def tr1_def need_def outPath_def
        by (simp add: mergeZIP_def Let_def)
      then have pcts: "overallPcts tr = overallPcts (trace st)" and bytes: "bytesWritten tr = overallDone st"
        using assms(1) inv by (auto simp: countInv_def overallPcts_append bytesWritten_append)
      have small: "100 * overallDone st < 2 ^ 63"
        using inv bound by (simp add: initState_def)
      have "last (overallPcts tr) = 100" if "overallPcts tr \<noteq> []" and "bytesWritten tr = catalogTotal e"
      proof -
        have "overallDone st = T"
          using that(2) bytes cat by simp
        moreover have "last (overallPcts (trace st)) = pct (overallDone st) T"
          using inv None that(1) pcts by (auto simp: restInv_def)
        ultimately show ?thesis
          using small pcts by (simp add: pct_full)
      qed
      then show ?thesis
        using inv pcts by (auto simp: countInv_def)
    qed
  qed
qed

theorem progress_monotone_witness:
  "100 * jobBytes (quietEnv [''y.zip'', ''x.zip'']
       [(''x.zip'', [plainFile ''a.txt'' 10]), (''y.zip'', [plainFile ''b.txt'' 30])]) < 2 ^ 63
   \<and> fst (mergeZIP defaultOptions (quietEnv [''y.zip'', ''x.zip'']
       [(''x.zip'', [plainFile ''a.txt'' 10]), (''y.zip'', [plainFile ''b.txt'' 30])]))
      = Inr ''abcxyz_output/merged.zip''
   \<and> overallPcts (snd (mergeZIP defaultOptions (quietEnv [''y.zip'', ''x.zip'']
       [(''x.zip'', [plainFile ''a.txt'' 10]), (''y.zip'', [plainFile ''b.txt'' 30])]))) = [25, 100]
   \<and> sorted (overallPcts (snd (mergeZIP defaultOptions (quietEnv [''y.zip'', ''x.zip'']
       [(''x.zip'', [plainFile ''a.txt'' 10]), (''y.zip'', [plainFile ''b.txt'' 30])]))))
   \<and> last (overallPcts (snd (mergeZIP defaultOptions (quietEnv [''y.zip'', ''x.zip'']
       [(''x.zip'', [plainFile ''a.txt'' 10]), (''y.zip'', [plainFile ''b.txt'' 30])])))) = 100"
proof -
  let ?e = "quietEnv [''y.zip'', ''x.zip'']
       [(''x.zip'', [plainFile ''a.txt'' 10]), (''y.zip'', [plainFile ''b.txt'' 30])]"
  have run: "mergeZIP defaultOptions ?e =
      (Inr ''abcxyz_output/merged.zip'',
       [CreateOutput ''abcxyz_output/merged.zip'',
        Header ''x.zip'' ''a.txt'' ''a.txt'' True 10, WriteChunk 10,
        Render ''[1/2] x.zip'' 100 10 10 25 10 40, Newline,
        Header ''y.zip'' ''b.txt'' ''b.txt'' True 30, WriteChunk 30,
        Render ''[2/2] y.zip'' 100 30 30 100 40 40, Newline,
        Finished ''abcxyz_output/merged.zip''])"
    by (simp add: job_defs name_defs need_defs Let_def cong: let_weak_cong)
  have names: "listZipFiles ?e = Some [''x.zip'', ''y.zip'']"
    by (simp add: listZipFiles_def sortNames_def sortStep_def quietEnv_def)
  have bytes: "jobBytes ?e = 40"
    unfolding jobBytes_def names
    by (simp add: namesBytes_def fileBytes_def chunkBytes_def quietEnv_def plainFile_def)
  have cat: "catalogTotal ?e = 40"
    unfolding catalogTotal_def names
    by (simp add: quietEnv_def plainFile_def sumUncompressed_def u64_def)
  show ?thesis
    using progress_monotone [OF run] bytes cat by (simp add: run)
qed

end
